theory Spec2Isabelle
  imports Complex_Main "HOL-Library.Char_ord" "HOL-Library.List_Lexorder" "HOL-Library.Sublist"
    "HOL-Library.Word"
begin

section \<open>Errors\<close>

text \<open>
  The error values the modelled functions return.  \<open>PartTooSmall\<close> carries the part
  number, the on-disk size and the etag, as the Go struct does; \<open>InvalidUploadID\<close>
  carries the upload id.  \<open>AllStaleDisksFailed\<close> is the error \<open>joinWriteErrors\<close>
  builds, with the pairs (disk number, message) of its text.  \<open>runtimePanic\<close> is a Go
  run-time panic (index out of range, division by zero, nil dereference).
  \<open>OtherError\<close> stands for an error value produced by a helper that is outside the
  modelled files.
\<close>

datatype error =
    errUnexpected
  | errFileNotFound
  | errFileAccessDenied
  | errVolumeNotFound
  | errInvalidArgument
  | errBitrotHashAlgoInvalid
  | InvalidUploadID string
  | InvalidPart
  | PartTooSmall int int string
  | PartsSizeUnequal
  | IncompleteBody
  | BucketNotFound string
  | ObjectNotFound string string
  | PrefixAccessDenied string string
  | AllStaleDisksFailed "(nat \<times> string) list"
  | runtimePanic
  | OtherError string

section \<open>Part-file names (multipart coordinator)\<close>

subsection \<open>Go library functions used by the name codec\<close>

text \<open>
  \<open>strings.Split(s, sep)\<close> for a one-byte separator: the pieces between the
  occurrences of the separator, \<open>n + 1\<close> pieces for \<open>n\<close> occurrences.
\<close>

fun strings_Split :: "string \<Rightarrow> char \<Rightarrow> string list" where
  "strings_Split [] sep = [[]]"
| "strings_Split (c # cs) sep =
     (if c = sep then [] # strings_Split cs sep
      else (case strings_Split cs sep of
              [] \<Rightarrow> [[c]]
            | x # xs \<Rightarrow> (c # x) # xs))"

definition isDigit :: "char \<Rightarrow> bool" where
  "isDigit c = (48 \<le> (of_char c :: nat) \<and> (of_char c :: nat) \<le> 57)"

definition digitChar :: "nat \<Rightarrow> char" where
  "digitChar d = ''0123456789'' ! d"

text \<open>The loop of \<open>strconv.Atoi\<close> over the digits: \<open>n = n*10 + (ch - '0')\<close>,
  a syntax error at the first byte that is not a decimal digit.\<close>

fun digitsVal :: "int \<Rightarrow> string \<Rightarrow> int option" where
  "digitsVal n [] = Some n"
| "digitsVal n (c # cs) =
     (if isDigit c then digitsVal (n * 10 + (int (of_char c) - 48)) cs else None)"

text \<open>
  \<open>strconv.Atoi\<close>: an optional sign, then at least one decimal digit and nothing
  else; a value outside the 64-bit \<open>int\<close> is a range error.  \<open>None\<close> is any error.
\<close>

definition strconv_Atoi :: "string \<Rightarrow> int option" where
  "strconv_Atoi s =
     (case s of
        [] \<Rightarrow> None
      | c # cs \<Rightarrow>
          (let neg = (c = CHR ''-'');
               ds = (if c = CHR ''-'' \<or> c = CHR ''+'' then cs else s)
           in if ds = [] then None
              else (case digitsVal 0 ds of
                      None \<Rightarrow> None
                    | Some n \<Rightarrow>
                        (let v = (if neg then - n else n)
                         in if - (2 ^ 63) \<le> v \<and> v < 2 ^ 63 then Some v else None))))"

text \<open>The decimal digits of a natural number, most significant first.\<close>

fun natDigits :: "nat \<Rightarrow> string" where
  "natDigits n =
     (if n < 10 then [digitChar n] else natDigits (n div 10) @ [digitChar (n mod 10)])"

declare natDigits.simps [simp del]

text \<open>
  \<open>fmt.Sprintf("%.5d", n)\<close>: the precision is the least number of digits, padded
  with zeros on the left; a negative number has its sign before the padding.
\<close>

definition sprintf_5d :: "int \<Rightarrow> string" where
  "sprintf_5d n =
     (let ds = natDigits (nat \<bar>n\<bar>)
      in (if n < 0 then ''-'' else '''') @ replicate (5 - length ds) CHR ''0'' @ ds)"

subsection \<open>encodePartFile and decodePartFile\<close>

definition encodePartFile :: "int \<Rightarrow> string \<Rightarrow> string" where
  "encodePartFile partNumber etag = sprintf_5d partNumber @ ''.'' @ etag"

definition decodePartFile :: "string \<Rightarrow> error + (int \<times> string)" where
  "decodePartFile name =
     (let result = strings_Split name CHR ''.''
      in if length result \<noteq> 2 then Inl errUnexpected
         else (case strconv_Atoi (result ! 0) of
                 None \<Rightarrow> Inl errUnexpected
               | Some partNumber \<Rightarrow> Inr (partNumber, result ! 1)))"

text \<open>
  What "a numeric component" means for a file name: a decimal integer literal, that
  is, an optional sign followed by one or more decimal digits.
\<close>

definition numeric :: "string \<Rightarrow> bool" where
  "numeric s =
     (case s of
        [] \<Rightarrow> False
      | c # cs \<Rightarrow>
          (let ds = (if c = CHR ''-'' \<or> c = CHR ''+'' then cs else s)
           in ds \<noteq> [] \<and> list_all isDigit ds))"

section \<open>Erasure storage: HealFile\<close>

subsection \<open>Stripe arithmetic\<close>

text \<open>
  Modelled from the spec: \<open>ceilFrac\<close> is called by \<open>HealFile\<close> but its source is not
  among the files; the specification gives the chunk size as \<open>ceil(blocksize/N)\<close> and
  the last chunk as \<open>ceil(residual/N)\<close>, so \<open>ceilFrac\<close> is the ceiling of the
  fraction (\<open>ceilFrac_is_ceiling\<close> below).
\<close>

definition ceilFrac :: "int \<Rightarrow> int \<Rightarrow> int" where
  "ceilFrac numerator denominator = - ((- numerator) div denominator)"

text \<open>Go's \<open>%\<close> on integers: the remainder of the division that truncates towards zero.\<close>

definition go_rem :: "int \<Rightarrow> int \<Rightarrow> int" where
  "go_rem a b = sgn a * (\<bar>a\<bar> mod \<bar>b\<bar>)"

record stripe =
  chunksize :: int
  numBlocks :: int
  lastChunkSize :: int
  readLen :: int

text \<open>Lines 76 to 87 of \<open>HealFile\<close>, with \<open>sz\<close> for the parameter \<open>size\<close>
  (a constant of HOL has that name); \<open>blocksize\<close> is not zero here (the caller of
  \<open>healStripe\<close> checks it, since \<open>size % blocksize\<close> panics on zero).\<close>

definition healStripe :: "int \<Rightarrow> int \<Rightarrow> int \<Rightarrow> stripe" where
  "healStripe blocksize dataBlocks sz =
     (let chunksize = ceilFrac blocksize dataBlocks;
          numBlocks = ceilFrac sz blocksize;
          readLen = chunksize * (numBlocks - 1);
          lastChunkSize = chunksize;
          hasSmallerLastBlock = (go_rem sz blocksize \<noteq> 0);
          lastChunkSize =
            (if hasSmallerLastBlock
             then (let lastBlockLen = go_rem sz blocksize
                   in ceilFrac lastBlockLen dataBlocks)
             else lastChunkSize);
          readLen = readLen + lastChunkSize
      in \<lparr>chunksize = chunksize, numBlocks = numBlocks,
          lastChunkSize = lastChunkSize, readLen = readLen\<rparr>)"

text \<open>
  The counter and the offset of the loop over the blocks (lines 109, 110, 125 to 128
  and 134): for every iteration, the block number, the offset \<open>buffOffset\<close> at which
  the iteration reads the buffers, and its chunk size \<open>csize\<close>.
\<close>

function healBlocks :: "stripe \<Rightarrow> int \<Rightarrow> int \<Rightarrow> (int \<times> int \<times> int) list" where
  "healBlocks g blockNumber buffOffset =
     (if blockNumber < numBlocks g
      then (let csize = (if blockNumber = numBlocks g - 1 then lastChunkSize g
                         else chunksize g)
            in (blockNumber, buffOffset, csize)
               # healBlocks g (blockNumber + 1) (buffOffset + csize))
      else [])"
  by pat_completeness auto
termination
  by (relation "measure (\<lambda>(g, blockNumber, buffOffset). nat (numBlocks g - blockNumber))") auto

declare healBlocks.simps [simp del]

subsection \<open>Disks, hashes and the erasure storage\<close>

type_synonym byte = "8 word"

text \<open>
  A disk, as \<open>HealFile\<close> uses it: the outcome of its \<open>AppendFile\<close> (\<open>None\<close> is the
  nil error, \<open>Some msg\<close> an error) for the append of a block's chunk.  A disk is
  appended to at most once for each block, so the outcome is a function of the block
  number and the bytes.  A nil disk is \<open>None\<close> in a list of disks.
\<close>

record StorageAPI =
  AppendFile :: "int \<Rightarrow> byte list \<Rightarrow> string option"

text \<open>A bitrot algorithm: whether it is available, and the checksum its hasher gives
  for the bytes written to it.  A hasher is the list of the bytes written so far.\<close>

record BitrotAlgorithm =
  Available :: bool
  hashSum :: "byte list \<Rightarrow> byte list"

record ErasureFileInfo =
  Size :: int
  Algorithm :: BitrotAlgorithm
  Checksums :: "byte list option list"

text \<open>
  A buffer is a Go slice of bytes: \<open>len\<close> is its length and \<open>elems\<close> are the bytes
  from its first element up to its capacity, so that its capacity is the length of
  \<open>elems\<close>.
\<close>

record buffer =
  len :: nat
  elems :: "byte list"

text \<open>
  The erasure storage \<open>s\<close>.  Its methods \<open>readConcurrent\<close> and
  \<open>ErasureDecodeDataAndParityBlocks\<close> are outside the modelled files and are fields
  here: \<open>readConcurrent\<close> takes the read length and the verifiers and gives an error
  or the buffer of every disk index (of length zero for a disk it did not read);
  the decoder takes the blocks of one stripe and gives an error or, as it works in
  place, the chunk of every disk index.
\<close>

record ErasureStorage =
  disks :: "StorageAPI option list"
  dataBlocks :: int
  readConcurrent :: "int \<Rightarrow> byte list option list \<Rightarrow> error + (nat \<Rightarrow> buffer)"
  ErasureDecodeDataAndParityBlocks :: "byte list list \<Rightarrow> error + (nat \<Rightarrow> byte list)"

subsection \<open>HealFile\<close>

text \<open>The slices \<open>writeErrors\<close> and \<open>hashers\<close> (a nil hasher is \<open>None\<close>).\<close>

record healState =
  writeErrors :: "string option list"
  hashers :: "byte list option list"

text \<open>
  Go's \<open>buf[lo:hi]\<close>: it panics (\<open>None\<close>) unless \<open>0 \<le> lo \<le> hi \<le> cap(buf)\<close>, and
  gives the bytes of the indices from \<open>lo\<close> to \<open>hi - 1\<close> otherwise.
\<close>

definition slice :: "buffer \<Rightarrow> int \<Rightarrow> int \<Rightarrow> byte list option" where
  "slice buf lo hi =
     (if lo < 0 \<or> hi < lo \<or> int (length (elems buf)) < hi then None
      else Some (take (nat (hi - lo)) (drop (nat lo) (elems buf))))"

text \<open>
  The allocations of lines 102 to 106 and 112 to 116:
  \<open>make([]byte, n)\<close> for every disk whose buffer has the length zero.  \<open>make\<close> panics
  when \<open>n\<close> is negative (the bound that the memory puts on \<open>n\<close> is left out).
\<close>

definition allocPanics :: "nat \<Rightarrow> (nat \<Rightarrow> buffer) \<Rightarrow> int \<Rightarrow> bool" where
  "allocPanics n buffers k = (k < 0 \<and> list_ex (\<lambda>i. len (buffers i) = 0) [0..<n])"

text \<open>The initialization loop (lines 62 to 72) indexes \<open>staleDisks\<close> for every disk
  and \<open>checksums\<close> for every disk that is neither stale nor nil.\<close>

definition initPanics :: "StorageAPI option list \<Rightarrow> StorageAPI option list \<Rightarrow> byte list list \<Rightarrow> bool" where
  "initPanics ds staleDisks checksums =
     list_ex (\<lambda>i. length staleDisks \<le> i \<or>
                  (staleDisks ! i = None \<and> ds ! i \<noteq> None \<and> length checksums \<le> i))
       [0..<length ds]"

definition initHashers :: "StorageAPI option list \<Rightarrow> StorageAPI option list \<Rightarrow> byte list option list" where
  "initHashers ds staleDisks =
     map (\<lambda>i. if staleDisks ! i \<noteq> None then Some [] else None) [0..<length ds]"

definition initVerifiers :: "StorageAPI option list \<Rightarrow> StorageAPI option list \<Rightarrow> byte list list \<Rightarrow> byte list option list" where
  "initVerifiers ds staleDisks checksums =
     map (\<lambda>i. if staleDisks ! i \<noteq> None then None
               else if ds ! i = None then None
               else Some (checksums ! i)) [0..<length ds]"

text \<open>
  The blocks handed to the decoder in one iteration (lines 111 to 133), or the panic
  of the iteration's allocation or of one of its slice expressions: the block is
  empty for a disk whose buffer has the length zero, else it is the iteration's
  slice of the buffer.
\<close>

definition blocksOf :: "stripe \<Rightarrow> nat \<Rightarrow> (nat \<Rightarrow> buffer) \<Rightarrow> int \<times> int \<times> int \<Rightarrow>
    error + byte list list" where
  "blocksOf g n buffers b =
     (case b of (blockNumber, buffOffset, csize) \<Rightarrow>
        if blockNumber = numBlocks g - 1 \<and> lastChunkSize g \<noteq> chunksize g \<and>
           allocPanics n buffers (lastChunkSize g)
        then Inl runtimePanic
        else (case those (map (\<lambda>i. if len (buffers i) = 0 then Some []
                                     else slice (buffers i) buffOffset (buffOffset + csize))
                            [0..<n]) of
                None \<Rightarrow> Inl runtimePanic
              | Some blocks \<Rightarrow> Inr blocks))"

text \<open>
  The loop that writes the chunks to the stale disks (lines 142 to 155), over the
  indexed entries of \<open>staleDisks\<close>; the result is the state and \<open>writeSucceeded\<close>.
\<close>

fun writeStale :: "int \<Rightarrow> (nat \<Rightarrow> byte list) \<Rightarrow> (nat \<times> StorageAPI option) list \<Rightarrow>
    healState \<times> bool \<Rightarrow> error + (healState \<times> bool)" where
  "writeStale blockNumber blocks [] acc = Inr acc"
| "writeStale blockNumber blocks ((i, disk) # rest) (st, writeSucceeded) =
     (case disk of
        None \<Rightarrow> writeStale blockNumber blocks rest (st, writeSucceeded)
      | Some d \<Rightarrow>
          if length (writeErrors st) \<le> i then Inl runtimePanic
          else if writeErrors st ! i \<noteq> None
          then writeStale blockNumber blocks rest (st, writeSucceeded)
          else (let r = AppendFile d blockNumber (blocks i);
                    st1 = st\<lparr>writeErrors := (writeErrors st)[i := r]\<rparr>
                in if r = None
                   then (case hashers st1 ! i of
                           None \<Rightarrow> Inl runtimePanic
                         | Some h \<Rightarrow>
                             writeStale blockNumber blocks rest
                               (st1\<lparr>hashers := (hashers st1)[i := Some (h @ blocks i)]\<rparr>, True))
                   else writeStale blockNumber blocks rest (st1, writeSucceeded)))"

definition joinWriteErrors :: "string option list \<Rightarrow> error" where
  "joinWriteErrors errs =
     AllStaleDisksFailed
       (concat (map (\<lambda>(i, err). case err of None \<Rightarrow> [] | Some msg \<Rightarrow> [(i + 1, msg)])
                  (zip [0..<length errs] errs)))"

text \<open>The slicing and the decoding of one iteration (lines 111 to 138).\<close>

definition decodeBlock :: "ErasureStorage \<Rightarrow> stripe \<Rightarrow> (nat \<Rightarrow> buffer) \<Rightarrow> int \<times> int \<times> int \<Rightarrow>
    error + (nat \<Rightarrow> byte list)" where
  "decodeBlock s g buffers b =
     (case blocksOf g (length (disks s)) buffers b of
        Inl err \<Rightarrow> Inl err
      | Inr blocks \<Rightarrow> ErasureDecodeDataAndParityBlocks s blocks)"

text \<open>The loop over the blocks (lines 110 to 164).\<close>

fun healLoop :: "ErasureStorage \<Rightarrow> stripe \<Rightarrow> StorageAPI option list \<Rightarrow> (nat \<Rightarrow> buffer) \<Rightarrow>
    (int \<times> int \<times> int) list \<Rightarrow> healState \<Rightarrow> error + healState" where
  "healLoop s g staleDisks buffers [] st = Inr st"
| "healLoop s g staleDisks buffers ((blockNumber, buffOffset, csize) # rest) st =
     (case decodeBlock s g buffers (blockNumber, buffOffset, csize) of
        Inl err \<Rightarrow> Inl err
      | Inr blocks \<Rightarrow>
          (case writeStale blockNumber blocks (zip [0..<length staleDisks] staleDisks)
                  (st, False) of
             Inl err \<Rightarrow> Inl err
           | Inr (st', writeSucceeded) \<Rightarrow>
               if \<not> writeSucceeded then Inl (joinWriteErrors (writeErrors st'))
               else healLoop s g staleDisks buffers rest st'))"

text \<open>The loop that copies the file hashes into the result (lines 169 to 174).\<close>

fun copyHashes :: "BitrotAlgorithm \<Rightarrow> healState \<Rightarrow> (nat \<times> StorageAPI option) list \<Rightarrow>
    byte list option list \<Rightarrow> error + byte list option list" where
  "copyHashes alg st [] cs = Inr cs"
| "copyHashes alg st ((i, disk) # rest) cs =
     (case disk of
        None \<Rightarrow> copyHashes alg st rest cs
      | Some d \<Rightarrow>
          if length (writeErrors st) \<le> i then Inl runtimePanic
          else if writeErrors st ! i \<noteq> None then copyHashes alg st rest cs
          else (case hashers st ! i of
                  None \<Rightarrow> Inl runtimePanic
                | Some h \<Rightarrow> copyHashes alg st rest (cs[i := Some (hashSum alg h)])))"

definition HealFile :: "ErasureStorage \<Rightarrow> StorageAPI option list \<Rightarrow> int \<Rightarrow> int \<Rightarrow>
    BitrotAlgorithm \<Rightarrow> byte list list \<Rightarrow> error + ErasureFileInfo" where
  "HealFile s staleDisks blocksize sz alg checksums =
     (if \<not> Available alg then Inl errBitrotHashAlgoInvalid
      else if initPanics (disks s) staleDisks checksums then Inl runtimePanic
      else if blocksize = 0 then Inl runtimePanic
      else
        (let n = length (disks s);
             st0 = \<lparr>writeErrors = replicate n None,
                    hashers = initHashers (disks s) staleDisks\<rparr>;
             verifiers = initVerifiers (disks s) staleDisks checksums;
             g = healStripe blocksize (dataBlocks s) sz
         in case readConcurrent s (readLen g) verifiers of
              Inl err \<Rightarrow> Inl err
            | Inr buffers \<Rightarrow>
                if 1 < numBlocks g \<and> allocPanics n buffers (chunksize g)
                then Inl runtimePanic
                else
                  (case healLoop s g staleDisks buffers (healBlocks g 0 0) st0 of
                     Inl err \<Rightarrow> Inl err
                   | Inr st \<Rightarrow>
                       (case copyHashes alg st (zip [0..<length staleDisks] staleDisks)
                               (replicate n None) of
                          Inl err \<Rightarrow> Inl err
                        | Inr cs \<Rightarrow>
                            Inr \<lparr>Size = sz, Algorithm = alg, Checksums = cs\<rparr>))))"

text \<open>
  Names for what the statements about \<open>HealFile\<close> speak of: the chunk of disk
  \<open>i\<close> that the decoder gives for one iteration of the loop, whether the append of
  that chunk to stale disk \<open>i\<close> fails, whether the decoder returns without an error on
  the blocks of an iteration, and whether every buffer that is not empty has room
  for the bytes that the loop reads from it.
\<close>

definition chunkOf :: "ErasureStorage \<Rightarrow> stripe \<Rightarrow> (nat \<Rightarrow> buffer) \<Rightarrow> (int \<times> int \<times> int) \<Rightarrow> nat \<Rightarrow>
    byte list" where
  "chunkOf s g buffers b i =
     (case decodeBlock s g buffers b of
        Inl err \<Rightarrow> []
      | Inr blocks \<Rightarrow> blocks i)"

definition appendFails :: "ErasureStorage \<Rightarrow> stripe \<Rightarrow> StorageAPI option list \<Rightarrow> (nat \<Rightarrow> buffer) \<Rightarrow>
    (int \<times> int \<times> int) \<Rightarrow> nat \<Rightarrow> bool" where
  "appendFails s g staleDisks buffers b i =
     (case staleDisks ! i of
        None \<Rightarrow> False
      | Some d \<Rightarrow> AppendFile d (fst b) (chunkOf s g buffers b i) \<noteq> None)"

definition decodes :: "ErasureStorage \<Rightarrow> stripe \<Rightarrow> (nat \<Rightarrow> buffer) \<Rightarrow> (int \<times> int \<times> int) \<Rightarrow> bool" where
  "decodes s g buffers b =
     (case blocksOf g (length (disks s)) buffers b of
        Inl err \<Rightarrow> True
      | Inr blocks \<Rightarrow>
          (case ErasureDecodeDataAndParityBlocks s blocks of
             Inl err \<Rightarrow> False
           | Inr blocks' \<Rightarrow> True))"

definition buffersHold :: "nat \<Rightarrow> (nat \<Rightarrow> buffer) \<Rightarrow> int \<Rightarrow> bool" where
  "buffersHold n buffers k =
     list_all (\<lambda>i. len (buffers i) = 0 \<or> k \<le> int (length (elems (buffers i)))) [0..<n]"

text \<open>Every stale disk has failed an append in one of the iterations \<open>bs\<close>.\<close>

definition allStaleFailed :: "ErasureStorage \<Rightarrow> stripe \<Rightarrow> StorageAPI option list \<Rightarrow> (nat \<Rightarrow> buffer) \<Rightarrow>
    (int \<times> int \<times> int) list \<Rightarrow> bool" where
  "allStaleFailed s g staleDisks buffers bs =
     (\<forall>i<length staleDisks. staleDisks ! i \<noteq> None \<longrightarrow>
        (\<exists>b\<in>set bs. appendFails s g staleDisks buffers b i))"

subsection \<open>Auxiliary notions for the proofs about HealFile\<close>

text \<open>
  What one run of the writing loop from index \<open>k\<close> on makes of \<open>writeErrors\<close> and
  \<open>hashers\<close>, and whether it sets \<open>writeSucceeded\<close>.
\<close>

definition weAfter :: "nat \<Rightarrow> nat \<Rightarrow> StorageAPI option list \<Rightarrow> int \<Rightarrow> (nat \<Rightarrow> byte list) \<Rightarrow>
    healState \<Rightarrow> string option list" where
  "weAfter n k sd bn blocks st =
     map (\<lambda>j. if k \<le> j \<and> sd ! j \<noteq> None \<and> writeErrors st ! j = None
               then AppendFile (the (sd ! j)) bn (blocks j)
               else writeErrors st ! j) [0..<n]"

definition hsAfter :: "nat \<Rightarrow> nat \<Rightarrow> StorageAPI option list \<Rightarrow> int \<Rightarrow> (nat \<Rightarrow> byte list) \<Rightarrow>
    healState \<Rightarrow> byte list option list" where
  "hsAfter n k sd bn blocks st =
     map (\<lambda>j. if k \<le> j \<and> sd ! j \<noteq> None \<and> writeErrors st ! j = None \<and>
                  AppendFile (the (sd ! j)) bn (blocks j) = None
               then Some (the (hashers st ! j) @ blocks j)
               else hashers st ! j) [0..<n]"

definition okAfter :: "nat \<Rightarrow> nat \<Rightarrow> StorageAPI option list \<Rightarrow> int \<Rightarrow> (nat \<Rightarrow> byte list) \<Rightarrow>
    healState \<Rightarrow> bool" where
  "okAfter n k sd bn blocks st =
     (\<exists>j<n. k \<le> j \<and> sd ! j \<noteq> None \<and> writeErrors st ! j = None \<and>
            AppendFile (the (sd ! j)) bn (blocks j) = None)"

text \<open>
  The invariant of the loop over the blocks, after the iterations \<open>done\<close>: a stale
  disk has a write error exactly when one of its appends failed, and the hasher of a
  stale disk without a write error has been fed the chunks of all iterations.
\<close>

definition healInv :: "ErasureStorage \<Rightarrow> stripe \<Rightarrow> StorageAPI option list \<Rightarrow> (nat \<Rightarrow> buffer) \<Rightarrow>
    (int \<times> int \<times> int) list \<Rightarrow> healState \<Rightarrow> bool" where
  "healInv s g sd buffers done st =
     (length (writeErrors st) = length sd \<and> length (hashers st) = length sd \<and>
      (\<forall>i<length sd. sd ! i \<noteq> None \<longrightarrow>
         (writeErrors st ! i \<noteq> None) = (\<exists>b\<in>set done. appendFails s g sd buffers b i)) \<and>
      (\<forall>i<length sd. sd ! i \<noteq> None \<longrightarrow> hashers st ! i \<noteq> None) \<and>
      (\<forall>i<length sd. sd ! i \<noteq> None \<longrightarrow> writeErrors st ! i = None \<longrightarrow>
         hashers st ! i = Some (concat (map (\<lambda>b. chunkOf s g buffers b i) done))))"

subsection \<open>A concrete heal\<close>

text \<open>
  Three disks, a block size of 4 bytes, two data blocks and a file of 6 bytes: two
  blocks, with chunks of 2 bytes and of 1 byte.  Disk 0 holds valid data; disks 1 and
  2 are stale.  The append to disk 2 fails in the second block, every append to
  disk 1 succeeds.  The decoder of the example copies the chunk of disk 0.
\<close>

definition exDiskOK :: StorageAPI where
  "exDiskOK = \<lparr>AppendFile = (\<lambda>blockNumber buf. None)\<rparr>"

definition exDiskBad :: StorageAPI where
  "exDiskBad = \<lparr>AppendFile = (\<lambda>blockNumber buf. if blockNumber = 1 then Some ''EIO'' else None)\<rparr>"

definition exBuffers :: "nat \<Rightarrow> buffer" where
  "exBuffers i = (if i = 0 then \<lparr>len = 3, elems = [1, 2, 3]\<rparr> else \<lparr>len = 0, elems = []\<rparr>)"

definition exStorage :: ErasureStorage where
  "exStorage =
     \<lparr>disks = [Some exDiskOK, None, None],
      dataBlocks = 2,
      readConcurrent = (\<lambda>len verifiers. Inr exBuffers),
      ErasureDecodeDataAndParityBlocks = (\<lambda>blocks. Inr (\<lambda>i. blocks ! 0))\<rparr>"

definition exStale :: "StorageAPI option list" where
  "exStale = [None, Some exDiskOK, Some exDiskBad]"

definition exAlg :: BitrotAlgorithm where
  "exAlg = \<lparr>Available = True, hashSum = rev\<rparr>"

definition exChecksums :: "byte list list" where
  "exChecksums = [[9], [], []]"

section \<open>Namespace lock map\<close>

text \<open>
  \<open>nsParam\<close> is the key of the map, \<open>nsLock\<close> an entry.  The reference count is
  Go's \<open>uint\<close>, 64 bits wide: \<open>ref++\<close> and \<open>ref--\<close> wrap around.  The read-write lock
  embedded in an entry (\<open>RWLockerSync\<close>) comes from a library outside the repository
  and is left out, as is the debugging map that \<open>statusNoneToBlocked\<close> and its
  siblings maintain: none of them reads or writes \<open>lockMap\<close> or \<open>ref\<close>.
\<close>

record nsParam =
  volume :: string
  path :: string

record nsLock =
  ref :: "64 word"

text \<open>
  The map holds pointers: \<open>lockMap\<close> maps a key to the address of its \<open>nsLock\<close>,
  \<open>objs\<close> is the store of the \<open>nsLock\<close> objects and \<open>nextObj\<close> the next address to
  allocate.  A goroutine blocked inside \<open>lock\<close> keeps the pointer it looked up, also
  when the entry has left the map meanwhile.  \<open>logged\<close> collects what is passed to
  \<open>logger.LogIf\<close>.
\<close>

record nsLockMap =
  lockMap :: "nsParam \<Rightarrow> nat option"
  objs :: "nat \<Rightarrow> nsLock"
  nextObj :: nat
  logged :: "string list"

definition newNSLock :: nsLockMap where
  "newNSLock = \<lparr>lockMap = (\<lambda>param. None), objs = (\<lambda>a. \<lparr>ref = 0\<rparr>), nextObj = 0, logged = []\<rparr>"

text \<open>
  \<open>lock\<close>, lines 147 to 172, run under the map's mutex: look the entry up or create
  it with \<open>ref = 0\<close>, then \<open>ref++\<close>.  The result is the pointer \<open>nsLk\<close> the caller
  keeps while it blocks, and the map.
\<close>

definition lockEnter :: "nsLockMap \<Rightarrow> string \<Rightarrow> string \<Rightarrow> nat \<times> nsLockMap" where
  "lockEnter n vol pth =
     (let param = \<lparr>volume = vol, path = pth\<rparr>;
          (nsLk, n1) =
            (case lockMap n param of
               None \<Rightarrow>
                 (nextObj n,
                  n\<lparr>objs := (objs n)(nextObj n := \<lparr>ref = 0\<rparr>),
                    nextObj := nextObj n + 1,
                    lockMap := (lockMap n)(param \<mapsto> nextObj n)\<rparr>)
             | Some nsLk \<Rightarrow> (nsLk, n))
      in (nsLk, n1\<lparr>objs := (objs n1)(nsLk := \<lparr>ref = ref (objs n1 nsLk) + 1\<rparr>)\<rparr>))"

text \<open>
  \<open>lock\<close>, lines 181 to 200, run under the map's mutex when the acquire timed out:
  \<open>nsLk.ref--\<close> on the pointer the caller kept, and when that count is zero the key
  is deleted from the map.
\<close>

definition lockFailed :: "nsLockMap \<Rightarrow> string \<Rightarrow> string \<Rightarrow> nat \<Rightarrow> nsLockMap" where
  "lockFailed n vol pth nsLk =
     (let param = \<lparr>volume = vol, path = pth\<rparr>;
          n1 = n\<lparr>objs := (objs n)(nsLk := \<lparr>ref = ref (objs n nsLk) - 1\<rparr>)\<rparr>
      in if ref (objs n1 nsLk) = 0
         then n1\<lparr>lockMap := (lockMap n1)(param := None)\<rparr>
         else n1)"

text \<open>
  \<open>lock\<close> as a whole when no other goroutine runs between its two critical
  sections; \<open>acquired\<close> is what \<open>GetLock\<close> or \<open>GetRLock\<close> of the entry returned.
\<close>

definition lock :: "nsLockMap \<Rightarrow> string \<Rightarrow> string \<Rightarrow> bool \<Rightarrow> bool \<times> nsLockMap" where
  "lock n vol pth acquired =
     (let (nsLk, n1) = lockEnter n vol pth
      in if \<not> acquired then (False, lockFailed n1 vol pth nsLk) else (True, n1))"

text \<open>\<open>unlock\<close>, lines 210 to 241.\<close>

definition unlock :: "nsLockMap \<Rightarrow> string \<Rightarrow> string \<Rightarrow> string \<Rightarrow> bool \<Rightarrow> nsLockMap" where
  "unlock n vol pth opsID readLock =
     (let param = \<lparr>volume = vol, path = pth\<rparr>
      in case lockMap n param of
           None \<Rightarrow> n
         | Some nsLk \<Rightarrow>
             (let n1 = (if ref (objs n nsLk) = 0
                        then n\<lparr>logged := logged n @ [''Namespace reference count cannot be 0'']\<rparr>
                        else n);
                  n2 = (if ref (objs n1 nsLk) \<noteq> 0
                        then n1\<lparr>objs := (objs n1)(nsLk := \<lparr>ref = ref (objs n1 nsLk) - 1\<rparr>)\<rparr>
                        else n1)
              in if ref (objs n2 nsLk) = 0
                 then n2\<lparr>lockMap := (lockMap n2)(param := None)\<rparr>
                 else n2))"

text \<open>\<open>ForceUnlock\<close>, lines 273 to 304 (the broadcast of the distributed mode is outside
  the map).\<close>

definition ForceUnlock :: "nsLockMap \<Rightarrow> string \<Rightarrow> string \<Rightarrow> nsLockMap" where
  "ForceUnlock n vol pth =
     (let param = \<lparr>volume = vol, path = pth\<rparr>
      in case lockMap n param of
           None \<Rightarrow> n
         | Some nsLk \<Rightarrow> n\<lparr>lockMap := (lockMap n)(param := None)\<rparr>)"

text \<open>The reference count of a key: that of its entry, zero when it has none.\<close>

definition refCount :: "nsLockMap \<Rightarrow> nsParam \<Rightarrow> nat" where
  "refCount n param =
     (case lockMap n param of None \<Rightarrow> 0 | Some nsLk \<Rightarrow> unat (ref (objs n nsLk)))"

subsection \<open>Runs of the lock map\<close>

text \<open>
  The critical sections are atomic (they hold \<open>lockMapMutex\<close>), so a run of the
  program is a sequence of them.  Between \<open>LockEnter\<close> and the end of its \<open>lock\<close>
  call, by \<open>LockFailed\<close> (timeout) or \<open>LockAcquired\<close>, a goroutine is blocked and
  holds the key and the pointer it got; \<open>blocked\<close> lists these goroutines.
  \<open>Unlock\<close> and \<open>ForceUnlock\<close> may be called at any time, also by a caller that holds
  no lock.
\<close>

datatype event =
    LockEnter string string
  | LockFailed string string nat
  | LockAcquired string string nat
  | Unlock string string string bool
  | ForceUnlockEv string string

record system =
  nsMutex :: nsLockMap
  blocked :: "(nsParam \<times> nat) list"

definition initSystem :: system where
  "initSystem = \<lparr>nsMutex = newNSLock, blocked = []\<rparr>"

fun step :: "event \<Rightarrow> system \<Rightarrow> system option" where
  "step (LockEnter vol pth) s =
     (let (nsLk, n) = lockEnter (nsMutex s) vol pth
      in Some \<lparr>nsMutex = n, blocked = (\<lparr>volume = vol, path = pth\<rparr>, nsLk) # blocked s\<rparr>)"
| "step (LockFailed vol pth nsLk) s =
     (if (\<lparr>volume = vol, path = pth\<rparr>, nsLk) \<in> set (blocked s)
      then Some \<lparr>nsMutex = lockFailed (nsMutex s) vol pth nsLk,
                 blocked = remove1 (\<lparr>volume = vol, path = pth\<rparr>, nsLk) (blocked s)\<rparr>
      else None)"
| "step (LockAcquired vol pth nsLk) s =
     (if (\<lparr>volume = vol, path = pth\<rparr>, nsLk) \<in> set (blocked s)
      then Some (s\<lparr>blocked := remove1 (\<lparr>volume = vol, path = pth\<rparr>, nsLk) (blocked s)\<rparr>)
      else None)"
| "step (Unlock vol pth opsID readLock) s =
     Some (s\<lparr>nsMutex := unlock (nsMutex s) vol pth opsID readLock\<rparr>)"
| "step (ForceUnlockEv vol pth) s =
     Some (s\<lparr>nsMutex := ForceUnlock (nsMutex s) vol pth\<rparr>)"

fun run :: "event list \<Rightarrow> system \<Rightarrow> system option" where
  "run [] s = Some s"
| "run (e # es) s = (case step e s of None \<Rightarrow> None | Some s' \<Rightarrow> run es s')"

text \<open>
  The invariant of runs of at most \<open>k\<close> events: an entry of the map has a count
  between 1 and \<open>k\<close>, its object is allocated and belongs to no other key, and the
  pointer of a blocked goroutine is allocated and is in the map under no other key
  than the goroutine's.
\<close>

definition lockInv :: "nat \<Rightarrow> system \<Rightarrow> bool" where
  "lockInv k s =
     ((\<forall>p a. lockMap (nsMutex s) p = Some a \<longrightarrow>
         a < nextObj (nsMutex s) \<and>
         0 < unat (ref (objs (nsMutex s) a)) \<and> unat (ref (objs (nsMutex s) a)) \<le> k \<and>
         (\<forall>q. lockMap (nsMutex s) q = Some a \<longrightarrow> q = p)) \<and>
      (\<forall>p a. (p, a) \<in> set (blocked s) \<longrightarrow>
         a < nextObj (nsMutex s) \<and> (\<forall>q. lockMap (nsMutex s) q = Some a \<longrightarrow> q = p)))"

subsection \<open>A concrete run\<close>

text \<open>Two goroutines enter \<open>lock\<close> for the same object; the first acquires the lock,
  the second is still blocked.\<close>

definition exRun :: "event list" where
  "exRun = [LockEnter ''bucket'' ''object'', LockEnter ''bucket'' ''object'',
            LockAcquired ''bucket'' ''object'' 0]"

definition exSystem :: system where
  "exSystem =
     \<lparr>nsMutex =
        \<lparr>lockMap = (\<lambda>param. None)(\<lparr>volume = ''bucket'', path = ''object''\<rparr> \<mapsto> 0),
         objs = (\<lambda>a. \<lparr>ref = 0\<rparr>)(0 := \<lparr>ref = 2\<rparr>),
         nextObj = 1,
         logged = []\<rparr>,
      blocked = [(\<lparr>volume = ''bucket'', path = ''object''\<rparr>, 0)]\<rparr>"

text \<open>
  A run with a forced unlock.  Goroutine A enters \<open>lock\<close> for the object and blocks
  with the pointer 0; \<open>ForceUnlock\<close> removes the entry; goroutines B and C enter
  \<open>lock\<close> for the same object and get the pointer 1 of a new entry; B acquires the
  lock, C and A are still blocked.
\<close>

definition exStaleRun :: "event list" where
  "exStaleRun = [LockEnter ''bucket'' ''object'', ForceUnlockEv ''bucket'' ''object'',
                 LockEnter ''bucket'' ''object'', LockEnter ''bucket'' ''object'',
                 LockAcquired ''bucket'' ''object'' 1]"

definition exStaleSystem :: system where
  "exStaleSystem =
     \<lparr>nsMutex =
        \<lparr>lockMap = (\<lambda>param. None)(\<lparr>volume = ''bucket'', path = ''object''\<rparr> \<mapsto> 1),
         objs = (\<lambda>a. \<lparr>ref = 0\<rparr>)(0 := \<lparr>ref = 1\<rparr>, 1 := \<lparr>ref = 2\<rparr>),
         nextObj = 2,
         logged = []\<rparr>,
      blocked = [(\<lparr>volume = ''bucket'', path = ''object''\<rparr>, 1),
                 (\<lparr>volume = ''bucket'', path = ''object''\<rparr>, 0)]\<rparr>"

text \<open>A map whose entry for the object has the reference count zero.\<close>

definition exZeroRef :: nsLockMap where
  "exZeroRef =
     \<lparr>lockMap = (\<lambda>param. None)(\<lparr>volume = ''bucket'', path = ''object''\<rparr> \<mapsto> 0),
      objs = (\<lambda>a. \<lparr>ref = 0\<rparr>),
      nextObj = 1,
      logged = []\<rparr>"

section \<open>Multipart uploads on the file system backend\<close>

subsection \<open>The file system\<close>

text \<open>
  Modelled from the spec: the helpers \<open>pathJoin\<close>, \<open>fsStatFile\<close>, \<open>fsRemoveAll\<close>,
  \<open>fsRemoveFile\<close>, \<open>fsRenameFile\<close>, \<open>fsCreateFile\<close>, \<open>readDir\<close>,
  \<open>mioutil.AppendFile\<close> and \<open>statBucketDir\<close> are called by the multipart functions
  but their source is not among the files.  They are modelled as the disk abstraction
  of the specification describes them (stat, list, create, append, rename, recursive
  delete, with not-found and access-denied errors), over a file system that is a list
  of paths with their nodes.  A path is the list of its components; \<open>pathJoin\<close> is the
  concatenation of paths.  A file carries its size in bytes.
\<close>

datatype fnode = Dir | File nat

type_synonym fspath = "string list"

type_synonym files = "(fspath \<times> fnode) list"

definition fsStatFile :: "files \<Rightarrow> fspath \<Rightarrow> error + nat" where
  "fsStatFile fls p =
     (case map_of fls p of
        None \<Rightarrow> Inl errFileNotFound
      | Some Dir \<Rightarrow> Inl errFileAccessDenied
      | Some (File sz) \<Rightarrow> Inr sz)"

definition fsStatDir :: "files \<Rightarrow> fspath \<Rightarrow> error option" where
  "fsStatDir fls p =
     (case map_of fls p of
        None \<Rightarrow> Some errVolumeNotFound
      | Some Dir \<Rightarrow> None
      | Some (File sz) \<Rightarrow> Some errVolumeNotFound)"

definition fsRemoveAll :: "files \<Rightarrow> fspath \<Rightarrow> files" where
  "fsRemoveAll fls dir = filter (\<lambda>(p, nd). \<not> prefix dir p) fls"

definition fsRemoveFile :: "files \<Rightarrow> fspath \<Rightarrow> files" where
  "fsRemoveFile fls p = filter (\<lambda>(q, nd). q \<noteq> p) fls"

definition fsWriteFile :: "files \<Rightarrow> fspath \<Rightarrow> nat \<Rightarrow> files" where
  "fsWriteFile fls p sz = (p, File sz) # fsRemoveFile fls p"

text \<open>The directories above a path, created by \<open>mkdirAll\<close> where they are missing.\<close>

definition mkParents :: "files \<Rightarrow> fspath \<Rightarrow> files" where
  "mkParents fls p =
     fls @ map (\<lambda>d. (d, Dir))
             (filter (\<lambda>d. map_of fls d = None) (map (\<lambda>k. take k p) [0..<length p]))"

definition fsRenameFile :: "files \<Rightarrow> fspath \<Rightarrow> fspath \<Rightarrow> error + files" where
  "fsRenameFile fls src dst =
     (case fsStatFile fls src of
        Inl err \<Rightarrow> Inl err
      | Inr sz \<Rightarrow>
          (if map_of fls dst = Some Dir then Inl errFileAccessDenied
           else Inr (fsWriteFile (mkParents (fsRemoveFile fls src) dst) dst sz)))"

definition readDir :: "files \<Rightarrow> fspath \<Rightarrow> error + string list" where
  "readDir fls dir =
     (if map_of fls dir \<noteq> Some Dir then Inl errFileNotFound
      else Inr (map (\<lambda>(p, nd). last p)
                  (filter (\<lambda>(p, nd). p \<noteq> [] \<and> butlast p = dir) fls)))"

text \<open>\<open>mioutil.AppendFile(dst, src)\<close>; \<open>fault\<close> is the input-output error of the
  operating system for this call, if there is one.\<close>

definition mioutil_AppendFile :: "error option \<Rightarrow> files \<Rightarrow> fspath \<Rightarrow> fspath \<Rightarrow> error + files" where
  "mioutil_AppendFile fault fls dst src =
     (case fault of
        Some err \<Rightarrow> Inl err
      | None \<Rightarrow>
          (case fsStatFile fls src of
             Inl err \<Rightarrow> Inl err
           | Inr sz \<Rightarrow>
               (case map_of fls dst of
                  Some Dir \<Rightarrow> Inl errFileAccessDenied
                | Some (File old) \<Rightarrow> Inr (fsWriteFile fls dst (old + sz))
                | None \<Rightarrow> Inr (fsWriteFile (mkParents fls dst) dst sz))))"

subsection \<open>The object layer and what it calls\<close>

text \<open>
  Modelled from the spec: the names of the on-disk layout (section 6 of the
  specification) and the minimum part size of 5 MiB; the constants themselves are
  declared outside the files.
\<close>

definition minioMetaMultipartBucket :: fspath where
  "minioMetaMultipartBucket = [''.minio.sys'', ''multipart'']"

definition minioMetaTmpBucket :: fspath where
  "minioMetaTmpBucket = [''.minio.sys'', ''tmp'']"

definition fsMetaJSONFile :: string where
  "fsMetaJSONFile = ''fs.json''"

definition globalMinPartSize :: int where
  "globalMinPartSize = 5 * 1024 * 1024"

definition isMinAllowedPartSize :: "int \<Rightarrow> bool" where
  "isMinAllowedPartSize sz = (globalMinPartSize \<le> sz)"

text \<open>
  Modelled from the spec: \<open>toObjectErr\<close> turns a storage error into the error of the
  object API (section 7 of the specification): a missing volume is a missing bucket
  (the tests of the repository expect \<open>BucketNotFound\<close>), a missing file a missing
  object.
\<close>

fun toObjectErr :: "error \<Rightarrow> string list \<Rightarrow> error" where
  "toObjectErr errVolumeNotFound (bucket # params) = BucketNotFound bucket"
| "toObjectErr errFileNotFound (bucket # object # params) = ObjectNotFound bucket object"
| "toObjectErr errFileAccessDenied (bucket # object # params) = PrefixAccessDenied bucket object"
| "toObjectErr err params = err"

text \<open>\<open>CompletePart\<close> is a part number with an etag.  \<open>PartInfo\<close> is without its
  modification time, which no modelled function reads.\<close>

type_synonym CompletePart = "int \<times> string"

record PartInfo =
  PartNumber :: int
  ETag :: string
  PartSize :: int

record fsAppendFile =
  filePath :: fspath
  parts :: "PartInfo list"

text \<open>
  The object layer: its root path, its identifier, the map of the append files, and
  the file system it works on.
\<close>

record FSObjects =
  fsPath :: fspath
  fsUUID :: string
  appendFileMap :: "string \<Rightarrow> fsAppendFile option"
  fsFiles :: files

text \<open>
  Functions the multipart functions call and whose source is outside the files; they
  are parameters of the model: the hash of a string, the checks of the bucket and
  object names, the test whether a parent of the object is itself an object, and the
  MD5 sum of a list of parts (an error when an etag is malformed).
\<close>

record helpers =
  getSHA256Hash :: "string \<Rightarrow> string"
  checkPutObjectPartArgs :: "string \<Rightarrow> string \<Rightarrow> error option"
  checkAbortMultipartArgs :: "string \<Rightarrow> string \<Rightarrow> error option"
  checkCompleteMultipartArgs :: "string \<Rightarrow> string \<Rightarrow> error option"
  parentDirIsObject :: "files \<Rightarrow> string \<Rightarrow> string \<Rightarrow> bool"
  getCompleteMultipartMD5 :: "CompletePart list \<Rightarrow> error + string"

definition statBucketDir :: "FSObjects \<Rightarrow> string \<Rightarrow> error option" where
  "statBucketDir fs bucket = fsStatDir (fsFiles fs) (fsPath fs @ [bucket])"

definition getUploadIDDir :: "helpers \<Rightarrow> FSObjects \<Rightarrow> string \<Rightarrow> string \<Rightarrow> string \<Rightarrow> fspath" where
  "getUploadIDDir h fs bucket object uploadID =
     fsPath fs @ minioMetaMultipartBucket
       @ [getSHA256Hash h (bucket @ ''/'' @ object)] @ [uploadID]"

text \<open>\<open>strconv.Itoa\<close>.\<close>

definition strconv_Itoa :: "int \<Rightarrow> string" where
  "strconv_Itoa n = (if n < 0 then ''-'' else '''') @ natDigits (nat \<bar>n\<bar>)"

subsection \<open>backgroundAppend\<close>

text \<open>
  The loop over the sorted entries (lines 92 to 119).  \<open>faults\<close> gives the
  input-output error of appending a part file, if there is one.  The result is the
  file system and the append file when the loop ends or returns.
\<close>

fun appendParts :: "(fspath \<Rightarrow> error option) \<Rightarrow> fspath \<Rightarrow> string list \<Rightarrow>
    files \<Rightarrow> fsAppendFile \<Rightarrow> int \<Rightarrow> files \<times> fsAppendFile" where
  "appendParts faults uploadIDDir [] fls file nextPartNumber = (fls, file)"
| "appendParts faults uploadIDDir (entry # entries) fls file nextPartNumber =
     (if entry = fsMetaJSONFile
      then appendParts faults uploadIDDir entries fls file nextPartNumber
      else (case decodePartFile entry of
              Inl err \<Rightarrow> (fls, file)
            | Inr (partNumber, etag) \<Rightarrow>
                if partNumber < nextPartNumber
                then appendParts faults uploadIDDir entries fls file nextPartNumber
                else if partNumber > nextPartNumber then (fls, file)
                else (let partPath = uploadIDDir @ [entry]
                      in case mioutil_AppendFile (faults partPath) fls (filePath file) partPath of
                           Inl err \<Rightarrow> (fls, file)
                         | Inr fls' \<Rightarrow>
                             appendParts faults uploadIDDir entries fls'
                               (file\<lparr>parts := parts file
                                   @ [\<lparr>PartNumber = nextPartNumber, ETag = etag, PartSize = 0\<rparr>]\<rparr>)
                               (nextPartNumber + 1))))"

text \<open>
  \<open>backgroundAppend\<close>; \<open>uuid\<close> is what \<open>mustGetUUID\<close> returns.  The append file is
  put into the map before the directory is read, and the map holds a pointer to it,
  so what the loop appends is visible in the map.
\<close>

definition backgroundAppend :: "helpers \<Rightarrow> (fspath \<Rightarrow> error option) \<Rightarrow> string \<Rightarrow> FSObjects \<Rightarrow>
    string \<Rightarrow> string \<Rightarrow> string \<Rightarrow> FSObjects" where
  "backgroundAppend h faults uuid fs bucket object uploadID =
     (let file =
            (case appendFileMap fs uploadID of
               None \<Rightarrow> \<lparr>filePath = fsPath fs @ minioMetaTmpBucket
                                    @ [fsUUID fs, uploadID @ ''.'' @ uuid],
                         parts = []\<rparr>
             | Some file \<Rightarrow> file);
          fs1 = fs\<lparr>appendFileMap := (appendFileMap fs)(uploadID \<mapsto> file)\<rparr>;
          nextPartNumber = int (length (parts file)) + 1;
          uploadIDDir = getUploadIDDir h fs bucket object uploadID
      in case readDir (fsFiles fs1) uploadIDDir of
           Inl err \<Rightarrow> fs1
         | Inr entries \<Rightarrow>
             (let (fls', file') =
                    appendParts faults uploadIDDir (sort entries) (fsFiles fs1) file nextPartNumber
              in fs1\<lparr>appendFileMap := (appendFileMap fs1)(uploadID \<mapsto> file'),
                     fsFiles := fls'\<rparr>))"

text \<open>The part numbers of an append file are \<open>1, 2, ..., k\<close>, in this order.\<close>

definition contiguous :: "fsAppendFile \<Rightarrow> bool" where
  "contiguous file = (map PartNumber (parts file) = map int [1..<Suc (length (parts file))])"

text \<open>
  A sequence of runs of \<open>backgroundAppend\<close>, each with its own faults, identifier and
  arguments, and each after an arbitrary change of the file system by the other
  operations (which do not write the parts of an append file).
\<close>

record appendRun =
  runFaults :: "fspath \<Rightarrow> error option"
  runUUID :: string
  runBucket :: string
  runObject :: string
  runUploadID :: string
  runChange :: "files \<Rightarrow> files"

fun backgroundAppends :: "helpers \<Rightarrow> appendRun list \<Rightarrow> FSObjects \<Rightarrow> FSObjects" where
  "backgroundAppends h [] fs = fs"
| "backgroundAppends h (r # rs) fs =
     backgroundAppends h rs
       (backgroundAppend h (runFaults r) (runUUID r) (fs\<lparr>fsFiles := runChange r (fsFiles fs)\<rparr>)
          (runBucket r) (runObject r) (runUploadID r))"

subsection \<open>PutObjectPart\<close>

text \<open>
  The reader of the part's data: the size the request declares, the number of bytes
  the reader delivers, and the hex form of its MD5 sum (empty when the reader has
  none).
\<close>

record hashReader =
  readerSize :: int
  readerBytes :: nat
  readerMD5 :: string

text \<open>
  What \<open>PutObjectPart\<close> gets from outside: \<open>mustGetUUID\<close>, \<open>GenETag\<close>, and the
  input-output error of \<open>fsCreateFile\<close>, if there is one.
\<close>

record putEnv =
  putUUID :: string
  putGenETag :: string
  putCreateFault :: "error option"

text \<open>
  Modelled from the spec: \<open>fsCreateFile\<close> streams the reader into the file, at most
  the given number of bytes, and returns the number of bytes written.
\<close>

definition fsCreateFile :: "error option \<Rightarrow> files \<Rightarrow> fspath \<Rightarrow> hashReader \<Rightarrow> int \<Rightarrow> error + (int \<times> files)" where
  "fsCreateFile fault fls p data sz =
     (case fault of
        Some err \<Rightarrow> Inl err
      | None \<Rightarrow>
          (let written = min (readerBytes data) (nat sz)
           in Inr (int written, fsWriteFile (mkParents fls p) p written)))"

text \<open>
  \<open>PutObjectPart\<close>.  The goroutine it starts for \<open>backgroundAppend\<close> runs after it
  or beside it and is a run of its own.  The deferred removal of the temporary file
  happens on every return after line 328.
\<close>

definition PutObjectPart :: "helpers \<Rightarrow> putEnv \<Rightarrow> FSObjects \<Rightarrow> string \<Rightarrow> string \<Rightarrow> string \<Rightarrow>
    int \<Rightarrow> hashReader \<Rightarrow> (error + PartInfo) \<times> FSObjects" where
  "PutObjectPart h env fs bucket object uploadID partID data =
     (case checkPutObjectPartArgs h bucket object of
        Some err \<Rightarrow> (Inl (toObjectErr err [bucket]), fs)
      | None \<Rightarrow>
     (case statBucketDir fs bucket of
        Some err \<Rightarrow> (Inl (toObjectErr err [bucket]), fs)
      | None \<Rightarrow>
     if readerSize data < 0 then (Inl (toObjectErr errInvalidArgument []), fs)
     else
     (let uploadIDDir = getUploadIDDir h fs bucket object uploadID
      in case fsStatFile (fsFiles fs) (uploadIDDir @ [fsMetaJSONFile]) of
           Inl err \<Rightarrow>
             if err = errFileNotFound \<or> err = errFileAccessDenied
             then (Inl (InvalidUploadID uploadID), fs)
             else (Inl (toObjectErr err [bucket, object]), fs)
         | Inr metaSize \<Rightarrow>
     (let tmpPartPath = fsPath fs @ minioMetaTmpBucket
            @ [fsUUID fs, uploadID @ ''.'' @ putUUID env @ ''.'' @ strconv_Itoa partID]
      in case fsCreateFile (putCreateFault env) (fsFiles fs) tmpPartPath data (readerSize data) of
           Inl err \<Rightarrow>
             (Inl (toObjectErr err (''.minio.sys/tmp'' # tmpPartPath)),
              fs\<lparr>fsFiles := fsRemoveFile (fsFiles fs) tmpPartPath\<rparr>)
         | Inr (bytesWritten, fls1) \<Rightarrow>
     if bytesWritten < readerSize data
     then (Inl IncompleteBody, fs\<lparr>fsFiles := fsRemoveFile fls1 tmpPartPath\<rparr>)
     else
     (let etag = (if readerMD5 data = '''' then putGenETag env else readerMD5 data);
          partPath = uploadIDDir @ [encodePartFile partID etag]
      in case fsRenameFile fls1 tmpPartPath partPath of
           Inl err \<Rightarrow>
             (Inl (toObjectErr err (''.minio.sys/multipart'' # partPath)),
              fs\<lparr>fsFiles := fsRemoveFile fls1 tmpPartPath\<rparr>)
         | Inr fls2 \<Rightarrow>
             (case fsStatFile fls2 partPath of
                Inl err \<Rightarrow>
                  (Inl (toObjectErr err (''.minio.sys/multipart'' # partPath)),
                   fs\<lparr>fsFiles := fsRemoveFile fls2 tmpPartPath\<rparr>)
              | Inr sz \<Rightarrow>
                  (Inr \<lparr>PartNumber = partID, ETag = etag, PartSize = int sz\<rparr>,
                   fs\<lparr>fsFiles := fsRemoveFile fls2 tmpPartPath\<rparr>)))))))"

text \<open>The files below the multipart area of the object layer.\<close>

definition multipartFiles :: "FSObjects \<Rightarrow> files" where
  "multipartFiles fs =
     filter (\<lambda>(p, nd). prefix (fsPath fs @ minioMetaMultipartBucket) p) (fsFiles fs)"

subsection \<open>CompleteMultipartUpload: the checks\<close>

text \<open>The loop that validates the parts (lines 493 to 532); the last part is the one
  with no part after it.\<close>

fun validateParts :: "files \<Rightarrow> fspath \<Rightarrow> int \<Rightarrow> CompletePart list \<Rightarrow> error option" where
  "validateParts fls uploadIDDir partSize [] = None"
| "validateParts fls uploadIDDir partSize (part # rest) =
     (let partPath = uploadIDDir @ [encodePartFile (fst part) (snd part)]
      in case fsStatFile fls partPath of
           Inl err \<Rightarrow>
             if err = errFileNotFound \<or> err = errFileAccessDenied then Some InvalidPart
             else Some err
         | Inr fiSize \<Rightarrow>
             (let partSize = (if partSize = - 1 then int fiSize else partSize)
              in if rest = [] then None
                 else if \<not> isMinAllowedPartSize (int fiSize)
                 then Some (PartTooSmall (fst part) (int fiSize) (snd part))
                 else if partSize \<noteq> int fiSize then Some PartsSizeUnequal
                 else validateParts fls uploadIDDir partSize rest))"

text \<open>The checks before the loop (lines 464 to 491); \<open>None\<close> when all pass.\<close>

definition completePrechecks :: "helpers \<Rightarrow> FSObjects \<Rightarrow> string \<Rightarrow> string \<Rightarrow> string \<Rightarrow>
    CompletePart list \<Rightarrow> error option" where
  "completePrechecks h fs bucket object uploadID prts =
     (case checkCompleteMultipartArgs h bucket object of
        Some err \<Rightarrow> Some (toObjectErr err [])
      | None \<Rightarrow>
          if parentDirIsObject h (fsFiles fs) bucket object
          then Some (toObjectErr errFileAccessDenied [bucket, object])
          else (case statBucketDir fs bucket of
                  Some err \<Rightarrow> Some (toObjectErr err [bucket])
                | None \<Rightarrow>
                    (case fsStatFile (fsFiles fs)
                            (getUploadIDDir h fs bucket object uploadID @ [fsMetaJSONFile]) of
                       Inl err \<Rightarrow>
                         if err = errFileNotFound \<or> err = errFileAccessDenied
                         then Some (InvalidUploadID uploadID)
                         else Some (toObjectErr err [bucket, object])
                     | Inr metaSize \<Rightarrow>
                         (case getCompleteMultipartMD5 h prts of
                            Inl err \<Rightarrow> Some err
                          | Inr s3MD5 \<Rightarrow> None))))"

text \<open>
  \<open>CompleteMultipartUpload\<close> up to the end of the validation (lines 463 to 532): the
  error it returns there, or \<open>None\<close> when it goes on to assemble and commit the
  object.
\<close>

definition completeChecks :: "helpers \<Rightarrow> FSObjects \<Rightarrow> string \<Rightarrow> string \<Rightarrow> string \<Rightarrow>
    CompletePart list \<Rightarrow> error option" where
  "completeChecks h fs bucket object uploadID prts =
     (case completePrechecks h fs bucket object uploadID prts of
        Some err \<Rightarrow> Some err
      | None \<Rightarrow>
          validateParts (fsFiles fs) (getUploadIDDir h fs bucket object uploadID) (- 1) prts)"

text \<open>The size on disk of a claimed part, if its file exists.\<close>

definition partOnDisk :: "files \<Rightarrow> fspath \<Rightarrow> CompletePart \<Rightarrow> int option" where
  "partOnDisk fls uploadIDDir part =
     (case fsStatFile fls (uploadIDDir @ [encodePartFile (fst part) (snd part)]) of
        Inl err \<Rightarrow> None
      | Inr sz \<Rightarrow> Some (int sz))"

subsection \<open>AbortMultipartUpload\<close>

text \<open>
  \<open>AbortMultipartUpload\<close>; the result is the error (\<open>None\<close> for success) and the
  object layer.  The error of \<open>fsRemoveAll\<close> is ignored by the function; \<open>removed\<close>
  says whether the operating system removed the directory.
\<close>

definition AbortMultipartUpload :: "helpers \<Rightarrow> bool \<Rightarrow> FSObjects \<Rightarrow> string \<Rightarrow> string \<Rightarrow> string \<Rightarrow>
    error option \<times> FSObjects" where
  "AbortMultipartUpload h removed fs bucket object uploadID =
     (case checkAbortMultipartArgs h bucket object of
        Some err \<Rightarrow> (Some err, fs)
      | None \<Rightarrow>
     (case statBucketDir fs bucket of
        Some err \<Rightarrow> (Some (toObjectErr err [bucket]), fs)
      | None \<Rightarrow>
     (let fs1 = fs\<lparr>appendFileMap := (appendFileMap fs)(uploadID := None)\<rparr>;
          uploadIDDir = getUploadIDDir h fs1 bucket object uploadID
      in case fsStatFile (fsFiles fs1) (uploadIDDir @ [fsMetaJSONFile]) of
           Inl err \<Rightarrow>
             if err = errFileNotFound \<or> err = errFileAccessDenied
             then (Some (InvalidUploadID uploadID), fs1)
             else (Some (toObjectErr err [bucket, object]), fs1)
         | Inr metaSize \<Rightarrow>
             (None,
              if removed then fs1\<lparr>fsFiles := fsRemoveAll (fsFiles fs1) uploadIDDir\<rparr>
              else fs1))))"

subsection \<open>A concrete object layer\<close>

text \<open>
  An object layer at \<open>/export\<close> with the bucket \<open>bucket\<close> and one upload \<open>id1\<close> of the
  object \<open>object\<close>.  The upload has the parts 1 (5 MiB), 2 (1 MiB) and 3 (10 bytes)
  on disk.  The helpers of the example accept every name, take \<open>sha\<close> for every hash
  and find no object among the parents.
\<close>

definition exHelpers :: helpers where
  "exHelpers =
     \<lparr>getSHA256Hash = (\<lambda>s. ''sha''),
      checkPutObjectPartArgs = (\<lambda>bucket object. None),
      checkAbortMultipartArgs = (\<lambda>bucket object. None),
      checkCompleteMultipartArgs = (\<lambda>bucket object. None),
      parentDirIsObject = (\<lambda>fls bucket object. False),
      getCompleteMultipartMD5 = (\<lambda>prts. Inr ''md5'')\<rparr>"

definition exDir :: fspath where
  "exDir = [''export'', ''.minio.sys'', ''multipart'', ''sha'', ''id1'']"

definition exFiles :: files where
  "exFiles =
     [([''export''], Dir),
      ([''export'', ''bucket''], Dir),
      ([''export'', ''.minio.sys''], Dir),
      ([''export'', ''.minio.sys'', ''multipart''], Dir),
      ([''export'', ''.minio.sys'', ''multipart'', ''sha''], Dir),
      (exDir, Dir),
      (exDir @ [''fs.json''], File 20),
      (exDir @ [''00002.bb''], File 1048576),
      (exDir @ [''00001.aa''], File 5242880),
      (exDir @ [''00003.cc''], File 10)]"

definition exAppendRun :: appendRun where
  "exAppendRun =
     \<lparr>runFaults = (\<lambda>p. None), runUUID = ''u1'', runBucket = ''bucket'', runObject = ''object'',
      runUploadID = ''id1'', runChange = (\<lambda>fls. fls)\<rparr>"

definition exFS :: FSObjects where
  "exFS = \<lparr>fsPath = [''export''], fsUUID = ''fsid'', appendFileMap = (\<lambda>uploadID. None),
           fsFiles = exFiles\<rparr>"

text \<open>The same object layer with a fourth part of 6 MiB on disk.\<close>

definition exFS2 :: FSObjects where
  "exFS2 = exFS\<lparr>fsFiles := (exDir @ [''00004.dd''], File 6291456) # exFiles\<rparr>"

section \<open>Theorems: part-file names\<close>

lemma strings_Split_nonempty: "strings_Split s sep \<noteq> []"
  by (induction s) (auto split: list.splits)

lemma strings_Split_no_sep: "sep \<notin> set s \<Longrightarrow> strings_Split s sep = [s]"
  by (induction s) auto

lemma strings_Split_append:
  "sep \<notin> set a \<Longrightarrow> strings_Split (a @ sep # b) sep = a # strings_Split b sep"
  by (induction a) auto

lemma of_char_digitChar: "d < 10 \<Longrightarrow> (of_char (digitChar d) :: nat) = 48 + d"
proof -
  assume "d < 10"
  then have "d \<in> {0, 1, 2, 3, 4, 5, 6, 7, 8, 9}" by auto
  then show ?thesis by (auto simp: digitChar_def)
qed

lemma isDigit_digitChar: "d < 10 \<Longrightarrow> isDigit (digitChar d)"
  by (simp add: isDigit_def of_char_digitChar)

lemma digitsVal_snoc:
  "digitsVal k (xs @ [c]) =
     (case digitsVal k xs of None \<Rightarrow> None
      | Some v \<Rightarrow> if isDigit c then Some (v * 10 + (int (of_char c) - 48)) else None)"
  by (induction xs arbitrary: k) auto

lemma digitsVal_natDigits: "digitsVal 0 (natDigits n) = Some (int n)"
proof (induction n rule: natDigits.induct)
  case (1 n)
  show ?case
  proof (cases "n < 10")
    case True
    then show ?thesis
      by (subst natDigits.simps) (simp add: isDigit_digitChar of_char_digitChar)
  next
    case False
    then have "digitsVal 0 (natDigits (n div 10)) = Some (int (n div 10))"
      using 1 by simp
    with False show ?thesis
      by (subst natDigits.simps)
         (simp add: digitsVal_snoc isDigit_digitChar of_char_digitChar zdiv_int zmod_int)
  qed
qed

lemma natDigits_all_digits: "list_all isDigit (natDigits n)"
proof (induction n rule: natDigits.induct)
  case (1 n)
  then show ?case
    by (subst natDigits.simps) (auto simp: isDigit_digitChar)
qed

lemma natDigits_nonempty: "natDigits n \<noteq> []"
  by (subst natDigits.simps) simp

lemma isDigit_zero: "isDigit CHR ''0''"
  by (simp add: isDigit_def)

lemma digitsVal_zeros: "digitsVal 0 (replicate k CHR ''0'' @ ds) = digitsVal 0 ds"
  by (induction k) (simp_all add: isDigit_zero)

lemma isDigit_not_special:
  "isDigit c \<Longrightarrow> c \<noteq> CHR ''.'' \<and> c \<noteq> CHR ''-'' \<and> c \<noteq> CHR ''+''"
  by (auto simp: isDigit_def)

lemma padded_digits: "list_all isDigit (replicate k CHR ''0'' @ natDigits m)"
  using natDigits_all_digits[of m] by (auto simp: list_all_iff isDigit_zero)

lemma strconv_Atoi_sprintf:
  assumes "- (2 ^ 63) \<le> n" "n < 2 ^ 63"
  shows "strconv_Atoi (sprintf_5d n) = Some n"
proof -
  let ?ds = "natDigits (nat \<bar>n\<bar>)"
  let ?p = "replicate (5 - length ?ds) CHR ''0'' @ ?ds"
  have dig: "list_all isDigit ?p" by (rule padded_digits)
  have ne: "?p \<noteq> []" by (simp add: natDigits_nonempty)
  have val: "digitsVal 0 ?p = Some \<bar>n\<bar>"
    by (simp add: digitsVal_zeros digitsVal_natDigits)
  obtain c cs where p: "?p = c # cs" using ne by (cases ?p) auto
  have c: "c \<noteq> CHR ''-''" "c \<noteq> CHR ''+''"
    using dig isDigit_not_special[of c] unfolding p by auto
  show ?thesis
  proof (cases "n < 0")
    case True
    then have "sprintf_5d n = CHR ''-'' # ?p" by (simp add: sprintf_5d_def Let_def)
    then show ?thesis using True val ne assms
      by (simp add: strconv_Atoi_def)
  next
    case False
    then have "sprintf_5d n = c # cs" using p by (simp add: sprintf_5d_def Let_def)
    moreover have "digitsVal 0 (c # cs) = Some \<bar>n\<bar>" using val p by simp
    ultimately show ?thesis using False c assms
      by (simp add: strconv_Atoi_def Let_def del: digitsVal.simps)
  qed
qed

lemma sprintf_no_dot: "CHR ''.'' \<notin> set (sprintf_5d n)"
proof -
  have "\<forall>c \<in> set (replicate k CHR ''0'' @ natDigits m). c \<noteq> CHR ''.''" for k m
    using padded_digits[of k m] isDigit_not_special by (auto simp: list_all_iff)
  then show ?thesis by (auto simp: sprintf_5d_def Let_def)
qed

lemma decode_encode:
  assumes "- (2 ^ 63) \<le> n" "n < 2 ^ 63" "CHR ''.'' \<notin> set etag"
  shows "decodePartFile (encodePartFile n etag) = Inr (n, etag)"
  using assms
  by (simp add: decodePartFile_def encodePartFile_def strings_Split_append
      sprintf_no_dot strings_Split_no_sep strconv_Atoi_sprintf)

lemma strings_Split_two:
  "strings_Split s sep = [a, b] \<Longrightarrow> s = a @ sep # b \<and> sep \<notin> set a \<and> sep \<notin> set b"
proof (induction s arbitrary: a)
  case Nil
  then show ?case by simp
next
  case (Cons c cs)
  show ?case
  proof (cases "c = sep")
    case True
    with Cons.prems have a: "a = []" and r: "strings_Split cs sep = [b]" by auto
    have "sep \<notin> set b \<and> cs = b" using r
    proof (induction cs arbitrary: b)
      case Nil then show ?case by simp
    next
      case (Cons d ds)
      then show ?case
        by (auto split: if_splits list.splits simp: strings_Split_nonempty)
    qed
    with a True show ?thesis by simp
  next
    case False
    with Cons.prems obtain x where "strings_Split cs sep = [x, b]" "a = c # x"
      by (auto split: list.splits)
    with Cons.IH[of x] False show ?thesis by auto
  qed
qed

lemma digitsVal_Some_digits: "digitsVal k ds = Some v \<Longrightarrow> list_all isDigit ds"
  by (induction ds arbitrary: k) (auto split: if_splits)

lemma strconv_Atoi_numeric: "strconv_Atoi s = Some v \<Longrightarrow> numeric s"
  by (auto simp: strconv_Atoi_def numeric_def Let_def split: list.splits option.splits if_splits
      dest: digitsVal_Some_digits)

lemma decodePartFile_ok_shape:
  assumes "decodePartFile name = Inr (n, e)"
  shows "\<exists>a. name = a @ ''.'' @ e \<and> CHR ''.'' \<notin> set a \<and> CHR ''.'' \<notin> set e \<and> numeric a"
proof -
  let ?r = "strings_Split name CHR ''.''"
  from assms have len: "length ?r = 2" and at: "strconv_Atoi (?r ! 0) \<noteq> None" and e: "e = ?r ! 1"
    by (auto simp: decodePartFile_def Let_def split: if_splits option.splits)
  from len obtain a b where r: "?r = [a, b]"
    by (cases ?r) (auto simp: length_Suc_conv)
  from strings_Split_two[OF r] r e at show ?thesis
    by (auto intro!: exI[of _ a] dest: strconv_Atoi_numeric)
qed

lemma strings_Split_shape:
  "name = a @ ''.'' @ b \<Longrightarrow> CHR ''.'' \<notin> set a \<Longrightarrow> CHR ''.'' \<notin> set b \<Longrightarrow>
   strings_Split name CHR ''.'' = [a, b]"
  by (simp add: strings_Split_append strings_Split_no_sep)

text \<open>
  Claim C10.  The part-file name codec round-trips: for every part number between 0 and
  99999 and every non-empty etag without a dot, decoding the encoded name gives back
  the part number and the etag with no error; and \<open>decodePartFile\<close> returns
  \<open>errUnexpected\<close> for every name that is not of the form \<open>a.b\<close> with \<open>a\<close> and
  \<open>b\<close> free of dots and \<open>a\<close> numeric (an optionally signed decimal literal).
\<close>

theorem decodePartFile_roundtrip_and_errors:
  "(0 \<le> partNumber \<and> partNumber \<le> 99999 \<and> etag \<noteq> [] \<and> CHR ''.'' \<notin> set etag \<longrightarrow>
      decodePartFile (encodePartFile partNumber etag) = Inr (partNumber, etag)) \<and>
   (\<not> (\<exists>a b. name = a @ ''.'' @ b \<and> CHR ''.'' \<notin> set a \<and> CHR ''.'' \<notin> set b \<and> numeric a) \<longrightarrow>
      decodePartFile name = Inl errUnexpected)"
proof (intro conjI impI)
  assume "0 \<le> partNumber \<and> partNumber \<le> 99999 \<and> etag \<noteq> [] \<and> CHR ''.'' \<notin> set etag"
  then show "decodePartFile (encodePartFile partNumber etag) = Inr (partNumber, etag)"
    by (intro decode_encode) auto
next
  assume no: "\<not> (\<exists>a b. name = a @ ''.'' @ b \<and> CHR ''.'' \<notin> set a \<and> CHR ''.'' \<notin> set b \<and> numeric a)"
  show "decodePartFile name = Inl errUnexpected"
  proof (cases "decodePartFile name")
    case (Inl e)
    then show ?thesis
      by (auto simp: decodePartFile_def Let_def split: if_splits option.splits)
  next
    case (Inr r)
    obtain n e where "r = (n, e)" by (cases r)
    with Inr decodePartFile_ok_shape[of name n e] no show ?thesis by blast
  qed
qed

theorem decodePartFile_roundtrip_and_errors_witness:
  "encodePartFile 7 ''abc'' = ''00007.abc'' \<and>
   decodePartFile (encodePartFile 7 ''abc'') = Inr (7, ''abc'') \<and>
   \<not> (\<exists>a b. ''fs.json'' = a @ ''.'' @ b \<and> CHR ''.'' \<notin> set a \<and> CHR ''.'' \<notin> set b \<and> numeric a) \<and>
   decodePartFile ''fs.json'' = Inl errUnexpected"
proof -
  have enc: "encodePartFile 7 ''abc'' = ''00007.abc''"
    by (simp add: encodePartFile_def sprintf_5d_def natDigits.simps digitChar_def numeral_eq_Suc)
  have no: "\<not> (\<exists>a b. ''fs.json'' = a @ ''.'' @ b \<and> CHR ''.'' \<notin> set a \<and> CHR ''.'' \<notin> set b \<and> numeric a)"
  proof
    assume "\<exists>a b. ''fs.json'' = a @ ''.'' @ b \<and> CHR ''.'' \<notin> set a \<and> CHR ''.'' \<notin> set b \<and> numeric a"
    then obtain a b where ab: "''fs.json'' = a @ ''.'' @ b" "CHR ''.'' \<notin> set a" "CHR ''.'' \<notin> set b"
      and num: "numeric a" by blast
    from strings_Split_shape[OF ab] have "a = ''fs''" by simp
    with num show False by (simp add: numeric_def isDigit_def)
  qed
  from decodePartFile_roundtrip_and_errors[of 7 "''abc''" "''fs.json''"] enc no
  show ?thesis by simp
qed

section \<open>Theorems: HealFile\<close>

subsection \<open>Stripe arithmetic\<close>

lemma ceilFrac_is_ceiling:
  "ceilFrac n d = \<lceil>real_of_int n / real_of_int d\<rceil>"
  by (simp add: ceilFrac_def ceiling_divide_eq_div)

lemma go_rem_nonneg: "0 \<le> a \<Longrightarrow> 0 < b \<Longrightarrow> go_rem a b = a mod b"
  by (cases "a = 0") (simp_all add: go_rem_def)

lemma healBlocks_from:
  "bn \<le> numBlocks g \<Longrightarrow>
   healBlocks g bn off =
     map (\<lambda>k. (k, off + (k - bn) * chunksize g,
               if k = numBlocks g - 1 then lastChunkSize g else chunksize g))
       [bn..numBlocks g - 1]"
proof (induction g bn off rule: healBlocks.induct)
  case (1 g bn off)
  show ?case
  proof (cases "bn < numBlocks g")
    case False
    with "1.prems" show ?thesis by (subst healBlocks.simps) simp
  next
    case True
    let ?c = "if bn = numBlocks g - 1 then lastChunkSize g else chunksize g"
    have up: "[bn..numBlocks g - 1] = bn # [bn + 1..numBlocks g - 1]"
      using True by (simp add: upto_rec1)
    have ih: "healBlocks g (bn + 1) (off + ?c) =
      map (\<lambda>k. (k, off + ?c + (k - (bn + 1)) * chunksize g,
               if k = numBlocks g - 1 then lastChunkSize g else chunksize g))
       [bn + 1..numBlocks g - 1]"
      using "1.IH"[OF True refl] True by simp
    have rest: "map (\<lambda>k. (k, off + ?c + (k - (bn + 1)) * chunksize g,
               if k = numBlocks g - 1 then lastChunkSize g else chunksize g))
       [bn + 1..numBlocks g - 1] =
       map (\<lambda>k. (k, off + (k - bn) * chunksize g,
               if k = numBlocks g - 1 then lastChunkSize g else chunksize g))
       [bn + 1..numBlocks g - 1]"
    proof (cases "bn = numBlocks g - 1")
      case True
      then show ?thesis by simp
    next
      case False
      then show ?thesis by (simp add: algebra_simps)
    qed
    show ?thesis
      by (subst healBlocks.simps) (simp add: True Let_def ih rest up)
  qed
qed

lemma healBlocks_sum:
  "bn \<le> numBlocks g \<Longrightarrow>
   (\<Sum>(k, off', c) \<leftarrow> healBlocks g bn off. c) =
     (if bn < numBlocks g then (numBlocks g - 1 - bn) * chunksize g + lastChunkSize g else 0)"
proof (induction g bn off rule: healBlocks.induct)
  case (1 g bn off)
  show ?case
  proof (cases "bn < numBlocks g")
    case False
    then show ?thesis by (subst healBlocks.simps) simp
  next
    case True
    let ?c = "if bn = numBlocks g - 1 then lastChunkSize g else chunksize g"
    have ih: "(\<Sum>(k, off', c) \<leftarrow> healBlocks g (bn + 1) (off + ?c). c) =
      (if bn + 1 < numBlocks g then (numBlocks g - 1 - (bn + 1)) * chunksize g + lastChunkSize g else 0)"
      using "1.IH"[OF True refl] True by simp
    show ?thesis
    proof (cases "bn = numBlocks g - 1")
      case last: True
      then have "\<not> bn + 1 < numBlocks g" by simp
      with ih last have "(\<Sum>(k, off', c) \<leftarrow> healBlocks g (bn + 1) (off + lastChunkSize g). c) = 0"
        by simp
      with last True show ?thesis
        by (subst healBlocks.simps) (simp add: Let_def)
    next
      case notlast: False
      with True have lt: "bn + 1 < numBlocks g" by simp
      with ih notlast have "(\<Sum>(k, off', c) \<leftarrow> healBlocks g (bn + 1) (off + chunksize g). c) =
         (numBlocks g - 1 - (bn + 1)) * chunksize g + lastChunkSize g"
        by simp
      with notlast True show ?thesis
        by (subst healBlocks.simps) (simp add: Let_def algebra_simps)
    qed
  qed
qed

lemma ceilFrac_zero_iff: "0 \<le> n \<Longrightarrow> 0 < d \<Longrightarrow> (ceilFrac n d = 0) = (n = 0)"
proof -
  assume n: "0 \<le> n" and d: "0 < d"
  have "(- n) div d = 0 \<longleftrightarrow> n = 0"
  proof (cases "n = 0")
    case True then show ?thesis by simp
  next
    case False
    with n have "- n < 0" by simp
    then have "(- n) div d < 0" using d by (rule div_neg_pos_less0)
    with False show ?thesis by simp
  qed
  then show ?thesis by (simp add: ceilFrac_def)
qed

lemma ceilFrac_nonneg: "0 \<le> n \<Longrightarrow> 0 < d \<Longrightarrow> 0 \<le> ceilFrac n d"
proof -
  assume n: "0 \<le> n" and d: "0 < d"
  have "(- n) div d \<le> 0" using n d by (simp add: div_nonpos_pos_le0)
  then show ?thesis by (simp add: ceilFrac_def)
qed

text \<open>
  Claim C9.  The stripe arithmetic of \<open>HealFile\<close>, for a positive block size, a
  positive number \<open>N\<close> of data blocks and a size that is not negative: the chunk size
  is \<open>ceil(blocksize/N)\<close>; the number of blocks is \<open>ceil(size/blocksize)\<close>; the last
  chunk size is \<open>ceil((size mod blocksize)/N)\<close> when the size is not a multiple of
  the block size and the chunk size otherwise; the read length is
  \<open>chunksize * (numBlocks - 1) + lastChunkSize\<close>; iteration \<open>k\<close> of the loop reads at
  offset \<open>k * chunksize\<close>, with the last chunk size in the last iteration and the
  chunk size in every other; and the chunk sizes of all iterations add up to the read
  length.
\<close>

theorem healStripe_arithmetic:
  assumes "0 < blocksize" and "0 < N" and "0 \<le> sz"
  shows "chunksize (healStripe blocksize N sz) = \<lceil>real_of_int blocksize / real_of_int N\<rceil> \<and>
         numBlocks (healStripe blocksize N sz) = \<lceil>real_of_int sz / real_of_int blocksize\<rceil> \<and>
         lastChunkSize (healStripe blocksize N sz) =
           (if sz mod blocksize \<noteq> 0
            then \<lceil>real_of_int (sz mod blocksize) / real_of_int N\<rceil>
            else chunksize (healStripe blocksize N sz)) \<and>
         readLen (healStripe blocksize N sz) =
           chunksize (healStripe blocksize N sz) * (numBlocks (healStripe blocksize N sz) - 1)
           + lastChunkSize (healStripe blocksize N sz) \<and>
         healBlocks (healStripe blocksize N sz) 0 0 =
           map (\<lambda>k. (k, k * chunksize (healStripe blocksize N sz),
                     if k = numBlocks (healStripe blocksize N sz) - 1
                     then lastChunkSize (healStripe blocksize N sz)
                     else chunksize (healStripe blocksize N sz)))
             [0..numBlocks (healStripe blocksize N sz) - 1] \<and>
         (\<Sum>(k, buffOffset, csize) \<leftarrow> healBlocks (healStripe blocksize N sz) 0 0. csize) =
           readLen (healStripe blocksize N sz)"
proof -
  let ?g = "healStripe blocksize N sz"
  have rem: "go_rem sz blocksize = sz mod blocksize"
    using assms by (simp add: go_rem_nonneg)
  have c: "chunksize ?g = \<lceil>real_of_int blocksize / real_of_int N\<rceil>"
    by (simp add: healStripe_def Let_def ceilFrac_is_ceiling)
  have n: "numBlocks ?g = \<lceil>real_of_int sz / real_of_int blocksize\<rceil>"
    by (simp add: healStripe_def Let_def ceilFrac_is_ceiling)
  have l: "lastChunkSize ?g =
           (if sz mod blocksize \<noteq> 0
            then \<lceil>real_of_int (sz mod blocksize) / real_of_int N\<rceil>
            else chunksize ?g)"
    by (simp add: healStripe_def Let_def ceilFrac_is_ceiling rem)
  have r: "readLen ?g = chunksize ?g * (numBlocks ?g - 1) + lastChunkSize ?g"
    by (simp add: healStripe_def Let_def)
  have nb: "numBlocks ?g = ceilFrac sz blocksize"
    by (simp add: healStripe_def Let_def)
  have nb0: "0 \<le> numBlocks ?g"
    using assms by (simp add: nb ceilFrac_nonneg)
  have b: "healBlocks ?g 0 0 =
           map (\<lambda>k. (k, k * chunksize ?g,
                     if k = numBlocks ?g - 1 then lastChunkSize ?g else chunksize ?g))
             [0..numBlocks ?g - 1]"
    using healBlocks_from[OF nb0, of 0] by simp
  have s: "(\<Sum>(k, buffOffset, csize) \<leftarrow> healBlocks ?g 0 0. csize) = readLen ?g"
  proof (cases "0 < numBlocks ?g")
    case True
    then show ?thesis using healBlocks_sum[OF nb0, of 0] r by (simp add: algebra_simps)
  next
    case False
    with nb0 have z: "numBlocks ?g = 0" by simp
    then have "sz = 0" using assms ceilFrac_zero_iff[of sz blocksize] by (simp add: nb)
    then have "lastChunkSize ?g = chunksize ?g" using l by simp
    then show ?thesis using healBlocks_sum[OF nb0, of 0] r z by simp
  qed
  from c n l r b s show ?thesis by blast
qed

theorem healStripe_arithmetic_witness:
  "(0::int) < 10 \<and> (0::int) < 4 \<and> (0::int) \<le> 25 \<and>
   healStripe 10 4 25 = \<lparr>chunksize = 3, numBlocks = 3, lastChunkSize = 2, readLen = 8\<rparr> \<and>
   healBlocks (healStripe 10 4 25) 0 0 = [(0, 0, 3), (1, 3, 3), (2, 6, 2)] \<and>
   (\<Sum>(k, buffOffset, csize) \<leftarrow> healBlocks (healStripe 10 4 25) 0 0. csize) = readLen (healStripe 10 4 25)"
proof -
  have h: "(0::int) < 10" "(0::int) < 4" "(0::int) \<le> 25" by simp_all
  have g: "healStripe 10 4 25 = \<lparr>chunksize = 3, numBlocks = 3, lastChunkSize = 2, readLen = 8\<rparr>"
    by (simp add: healStripe_def ceilFrac_def go_rem_def Let_def)
  have b: "healBlocks (healStripe 10 4 25) 0 0 = [(0, 0, 3), (1, 3, 3), (2, 6, 2)]"
    unfolding g by (simp add: healBlocks.simps)
  from healStripe_arithmetic[OF h] g b show ?thesis by simp
qed

subsection \<open>The writing loop\<close>

lemma zip_upt_drop_Cons:
  "k < n \<Longrightarrow> length sd = n \<Longrightarrow>
   zip [k..<n] (drop k sd) = (k, sd ! k) # zip [Suc k..<n] (drop (Suc k) sd)"
  by (simp add: upt_conv_Cons Cons_nth_drop_Suc[symmetric])

lemma after_n:
  assumes "length (writeErrors st) = n" "length (hashers st) = n"
  shows "weAfter n n sd bn blocks st = writeErrors st"
    and "hsAfter n n sd bn blocks st = hashers st"
    and "\<not> okAfter n n sd bn blocks st"
proof -
  have "weAfter n n sd bn blocks st = map (\<lambda>j. writeErrors st ! j) [0..<n]"
    unfolding weAfter_def by (rule map_cong) auto
  then show "weAfter n n sd bn blocks st = writeErrors st"
    using map_nth[of "writeErrors st"] assms by simp
  have "hsAfter n n sd bn blocks st = map (\<lambda>j. hashers st ! j) [0..<n]"
    unfolding hsAfter_def by (rule map_cong) auto
  then show "hsAfter n n sd bn blocks st = hashers st"
    using map_nth[of "hashers st"] assms by simp
  show "\<not> okAfter n n sd bn blocks st" by (auto simp: okAfter_def)
qed

lemma after_skip:
  assumes "sd ! k = None \<or> writeErrors st ! k \<noteq> None"
  shows "weAfter n (Suc k) sd bn blocks st = weAfter n k sd bn blocks st"
    and "hsAfter n (Suc k) sd bn blocks st = hsAfter n k sd bn blocks st"
    and "okAfter n (Suc k) sd bn blocks st = okAfter n k sd bn blocks st"
proof -
  have le: "\<And>j. (Suc k \<le> j \<and> sd ! j \<noteq> None \<and> writeErrors st ! j = None)
               = (k \<le> j \<and> sd ! j \<noteq> None \<and> writeErrors st ! j = None)"
    using assms by (metis Suc_leD Suc_leI le_neq_implies_less)
  show "weAfter n (Suc k) sd bn blocks st = weAfter n k sd bn blocks st"
    unfolding weAfter_def using le by (intro map_cong refl) metis
  show "hsAfter n (Suc k) sd bn blocks st = hsAfter n k sd bn blocks st"
    unfolding hsAfter_def using le by (intro map_cong refl) metis
  show "okAfter n (Suc k) sd bn blocks st = okAfter n k sd bn blocks st"
    unfolding okAfter_def using le by metis
qed

lemma after_write:
  assumes "sd ! k = Some d" "writeErrors st ! k = None" "k < n"
    and "length (writeErrors st) = n" "length (hashers st) = n"
    and "r = AppendFile d bn (blocks k)"
    and "st' = st\<lparr>writeErrors := (writeErrors st)[k := r],
                   hashers := (if r = None then (hashers st)[k := Some (the (hashers st ! k) @ blocks k)]
                               else hashers st)\<rparr>"
  shows "weAfter n (Suc k) sd bn blocks st' = weAfter n k sd bn blocks st"
    and "hsAfter n (Suc k) sd bn blocks st' = hsAfter n k sd bn blocks st"
    and "(r = None \<or> okAfter n (Suc k) sd bn blocks st') = okAfter n k sd bn blocks st"
proof -
  have we: "\<And>j. j < n \<Longrightarrow> writeErrors st' ! j = (if j = k then r else writeErrors st ! j)"
    using assms by (simp add: nth_list_update)
  have hs: "\<And>j. j < n \<Longrightarrow> hashers st' ! j =
       (if j = k \<and> r = None then Some (the (hashers st ! k) @ blocks k) else hashers st ! j)"
    using assms by (simp add: nth_list_update)
  have split: "\<And>j. (k \<le> j) = (j = k \<or> Suc k \<le> j)" by auto
  show "weAfter n (Suc k) sd bn blocks st' = weAfter n k sd bn blocks st"
    unfolding weAfter_def
  proof (intro map_cong refl)
    fix j assume "j \<in> set [0..<n]"
    then have j: "j < n" by simp
    show "(if Suc k \<le> j \<and> sd ! j \<noteq> None \<and> writeErrors st' ! j = None
           then AppendFile (the (sd ! j)) bn (blocks j) else writeErrors st' ! j) =
          (if k \<le> j \<and> sd ! j \<noteq> None \<and> writeErrors st ! j = None
           then AppendFile (the (sd ! j)) bn (blocks j) else writeErrors st ! j)"
      using assms(1,2) by (cases "j = k") (auto simp: we[OF j] we[OF assms(3)] assms(6)[symmetric])
  qed
  show "hsAfter n (Suc k) sd bn blocks st' = hsAfter n k sd bn blocks st"
    unfolding hsAfter_def
  proof (intro map_cong refl)
    fix j assume "j \<in> set [0..<n]"
    then have j: "j < n" by simp
    show "(if Suc k \<le> j \<and> sd ! j \<noteq> None \<and> writeErrors st' ! j = None \<and>
              AppendFile (the (sd ! j)) bn (blocks j) = None
           then Some (the (hashers st' ! j) @ blocks j) else hashers st' ! j) =
          (if k \<le> j \<and> sd ! j \<noteq> None \<and> writeErrors st ! j = None \<and>
              AppendFile (the (sd ! j)) bn (blocks j) = None
           then Some (the (hashers st ! j) @ blocks j) else hashers st ! j)"
      using assms(1,2) by (cases "j = k") (auto simp: we[OF j] hs[OF j] we[OF assms(3)] hs[OF assms(3)] assms(6)[symmetric])
  qed
  show "(r = None \<or> okAfter n (Suc k) sd bn blocks st') = okAfter n k sd bn blocks st"
  proof
    assume "r = None \<or> okAfter n (Suc k) sd bn blocks st'"
    then show "okAfter n k sd bn blocks st"
    proof
      assume "r = None"
      then show ?thesis unfolding okAfter_def using assms(1,2,3,6) by (intro exI[of _ k]) simp
    next
      assume "okAfter n (Suc k) sd bn blocks st'"
      then obtain j where j: "j < n" "Suc k \<le> j" "sd ! j \<noteq> None" "writeErrors st' ! j = None"
        "AppendFile (the (sd ! j)) bn (blocks j) = None" unfolding okAfter_def by blast
      then have "writeErrors st ! j = None" using we[OF j(1)] by (simp split: if_splits)
      with j show ?thesis unfolding okAfter_def by (intro exI[of _ j]) simp
    qed
  next
    assume "okAfter n k sd bn blocks st"
    then obtain j where j: "j < n" "k \<le> j" "sd ! j \<noteq> None" "writeErrors st ! j = None"
        "AppendFile (the (sd ! j)) bn (blocks j) = None" unfolding okAfter_def by blast
    show "r = None \<or> okAfter n (Suc k) sd bn blocks st'"
    proof (cases "j = k")
      case True
      with j assms(1,6) show ?thesis by simp
    next
      case False
      with j have "Suc k \<le> j" by simp
      moreover have "writeErrors st' ! j = None" using we[OF j(1)] False j by simp
      ultimately have "okAfter n (Suc k) sd bn blocks st'"
        unfolding okAfter_def using j by (intro exI[of _ j]) simp
      then show ?thesis ..
    qed
  qed
qed

lemma writeStale_zip:
  assumes "length (writeErrors st) = n" "length (hashers st) = n" "length sd = n"
      and "\<forall>i<n. sd ! i \<noteq> None \<longrightarrow> hashers st ! i \<noteq> None"
      and "k \<le> n"
  shows "writeStale bn blocks (zip [k..<n] (drop k sd)) (st, ws) =
     Inr (\<lparr>writeErrors = weAfter n k sd bn blocks st,
          hashers = hsAfter n k sd bn blocks st\<rparr>,
          ws \<or> okAfter n k sd bn blocks st)"
  using assms
proof (induction "n - k" arbitrary: k st ws)
  case 0
  then have kn: "k = n" by simp
  show ?case unfolding kn using after_n[OF "0.prems"(1,2)] by simp
next
  case (Suc m)
  then have kn: "k < n" by simp
  note z = zip_upt_drop_Cons[OF kn Suc.prems(3)]
  have m: "m = n - Suc k" using Suc.hyps(2) by simp
  have sk: "Suc k \<le> n" using kn by simp
  show ?case
  proof (cases "sd ! k = None \<or> writeErrors st ! k \<noteq> None")
    case True
    have eq: "writeStale bn blocks (zip [k..<n] (drop k sd)) (st, ws) =
          writeStale bn blocks (zip [Suc k..<n] (drop (Suc k) sd)) (st, ws)"
      using True kn Suc.prems(1) by (cases "sd ! k") (auto simp: z)
    show ?thesis
      unfolding eq Suc.hyps(1)[OF m Suc.prems(1,2,3,4) sk] after_skip[OF True] ..
  next
    case False
    then obtain d where d: "sd ! k = Some d" and w: "writeErrors st ! k = None" by auto
    obtain h where h: "hashers st ! k = Some h"
      using Suc.prems(4) kn d by auto
    define r where "r = AppendFile d bn (blocks k)"
    define st' where "st' = st\<lparr>writeErrors := (writeErrors st)[k := r],
                   hashers := (if r = None then (hashers st)[k := Some (the (hashers st ! k) @ blocks k)]
                               else hashers st)\<rparr>"
    have eq: "writeStale bn blocks (zip [k..<n] (drop k sd)) (st, ws) =
          writeStale bn blocks (zip [Suc k..<n] (drop (Suc k) sd)) (st', r = None \<or> ws)"
      using d w kn Suc.prems(1) h
      by (cases "AppendFile d bn (blocks k)") (simp_all add: z Let_def r_def st'_def)
    have p1: "length (writeErrors st') = n" using Suc.prems(1) by (simp add: st'_def)
    have p2: "length (hashers st') = n" using Suc.prems(2) by (simp add: st'_def)
    have p4: "\<forall>i<n. sd ! i \<noteq> None \<longrightarrow> hashers st' ! i \<noteq> None"
      using Suc.prems(2,4) kn by (auto simp: nth_list_update st'_def)
    note aw = after_write[where blocks=blocks and bn=bn, OF d w kn Suc.prems(1,2) r_def st'_def]
    have "((r = None \<or> ws) \<or> okAfter n (Suc k) sd bn blocks st') = (ws \<or> okAfter n k sd bn blocks st)"
      using aw(3) by blast
    then show ?thesis
      unfolding eq Suc.hyps(1)[OF m p1 p2 Suc.prems(3) p4 sk] aw(1,2) by simp
  qed
qed

subsection \<open>The loop over the blocks\<close>

lemma healInv_step:
  assumes inv: "healInv s g sd buffers done st"
      and dec: "decodeBlock s g buffers (bn, off, csize) = Inr blocks"
  shows "\<exists>st'. writeStale bn blocks (zip [0..<length sd] sd) (st, False) =
            Inr (st', \<not> allStaleFailed s g sd buffers (done @ [(bn, off, csize)])) \<and>
          healInv s g sd buffers (done @ [(bn, off, csize)]) st'"
proof -
  let ?n = "length sd"
  let ?b = "(bn, off, csize)"
  let ?st' = "\<lparr>writeErrors = weAfter ?n 0 sd bn blocks st, hashers = hsAfter ?n 0 sd bn blocks st\<rparr>"
  from inv have len: "length (writeErrors st) = ?n" "length (hashers st) = ?n"
    and we: "\<And>i. i < ?n \<Longrightarrow> sd ! i \<noteq> None \<Longrightarrow>
         (writeErrors st ! i \<noteq> None) = (\<exists>b\<in>set done. appendFails s g sd buffers b i)"
    and hne: "\<forall>i<?n. sd ! i \<noteq> None \<longrightarrow> hashers st ! i \<noteq> None"
    and hs: "\<And>i. i < ?n \<Longrightarrow> sd ! i \<noteq> None \<Longrightarrow> writeErrors st ! i = None \<Longrightarrow>
         hashers st ! i = Some (concat (map (\<lambda>b. chunkOf s g buffers b i) done))"
    by (auto simp: healInv_def)
  have ch: "\<And>i. chunkOf s g buffers ?b i = blocks i"
    by (simp add: chunkOf_def dec)
  have af: "\<And>i. sd ! i \<noteq> None \<Longrightarrow>
      appendFails s g sd buffers ?b i = (AppendFile (the (sd ! i)) bn (blocks i) \<noteq> None)"
    by (auto simp: appendFails_def ch)
  have run: "writeStale bn blocks (zip [0..<?n] sd) (st, False) =
      Inr (?st', False \<or> okAfter ?n 0 sd bn blocks st)"
    using writeStale_zip[OF len refl hne, of 0 bn blocks False] by simp
  have ok: "okAfter ?n 0 sd bn blocks st = (\<not> allStaleFailed s g sd buffers (done @ [?b]))"
  proof
    assume "okAfter ?n 0 sd bn blocks st"
    then obtain j where j: "j < ?n" "sd ! j \<noteq> None" "writeErrors st ! j = None"
      "AppendFile (the (sd ! j)) bn (blocks j) = None" by (auto simp: okAfter_def)
    then have "\<not> (\<exists>b\<in>set (done @ [?b]). appendFails s g sd buffers b j)"
      using we[of j] af[of j] by auto
    with j show "\<not> allStaleFailed s g sd buffers (done @ [?b])"
      unfolding allStaleFailed_def by blast
  next
    assume "\<not> allStaleFailed s g sd buffers (done @ [?b])"
    then obtain j where j: "j < ?n" "sd ! j \<noteq> None"
      "\<not> (\<exists>b\<in>set (done @ [?b]). appendFails s g sd buffers b j)"
      unfolding allStaleFailed_def by blast
    then have "writeErrors st ! j = None" "AppendFile (the (sd ! j)) bn (blocks j) = None"
      using we[of j] af[of j] by auto
    with j show "okAfter ?n 0 sd bn blocks st" unfolding okAfter_def by auto
  qed
  have we': "\<And>i. i < ?n \<Longrightarrow> weAfter ?n 0 sd bn blocks st ! i =
      (if sd ! i \<noteq> None \<and> writeErrors st ! i = None
       then AppendFile (the (sd ! i)) bn (blocks i) else writeErrors st ! i)"
    by (simp add: weAfter_def)
  have hs': "\<And>i. i < ?n \<Longrightarrow> hsAfter ?n 0 sd bn blocks st ! i =
      (if sd ! i \<noteq> None \<and> writeErrors st ! i = None \<and> AppendFile (the (sd ! i)) bn (blocks i) = None
       then Some (the (hashers st ! i) @ blocks i) else hashers st ! i)"
    by (simp add: hsAfter_def)
  have inv': "healInv s g sd buffers (done @ [?b]) ?st'"
    unfolding healInv_def
  proof (intro conjI allI impI)
    show "length (writeErrors ?st') = ?n" by (simp add: weAfter_def)
    show "length (hashers ?st') = ?n" by (simp add: hsAfter_def)
  next
    fix i assume i: "i < ?n" "sd ! i \<noteq> None"
    show "(writeErrors ?st' ! i \<noteq> None) = (\<exists>b\<in>set (done @ [?b]). appendFails s g sd buffers b i)"
      using we[OF i] af[OF i(2)] i by (auto simp: we'[OF i(1)])
  next
    fix i assume i: "i < ?n" "sd ! i \<noteq> None"
    show "hashers ?st' ! i \<noteq> None" using hne i by (auto simp: hs'[OF i(1)])
  next
    fix i assume i: "i < ?n" "sd ! i \<noteq> None" and w: "writeErrors ?st' ! i = None"
    from w have w0: "writeErrors st ! i = None" and a: "AppendFile (the (sd ! i)) bn (blocks i) = None"
      using i by (auto simp: we'[OF i(1)] split: if_splits)
    show "hashers ?st' ! i = Some (concat (map (\<lambda>b. chunkOf s g buffers b i) (done @ [?b])))"
      using hs[OF i w0] w0 a i by (simp add: hs'[OF i(1)] ch)
  qed
  from run ok inv' show ?thesis by auto
qed

lemma healLoop_result:
  assumes "healInv s g sd buffers done st"
      and "\<forall>b\<in>set rest. \<exists>blocks. decodeBlock s g buffers b = Inr blocks"
  shows "case healLoop s g sd buffers rest st of
           Inl e \<Rightarrow> (\<exists>k<length rest. allStaleFailed s g sd buffers (done @ take (Suc k) rest))
         | Inr st' \<Rightarrow> healInv s g sd buffers (done @ rest) st' \<and>
                      (\<forall>k<length rest. \<not> allStaleFailed s g sd buffers (done @ take (Suc k) rest))"
  using assms
proof (induction rest arbitrary: "done" st)
  case Nil
  then show ?case by simp
next
  case (Cons b rest)
  obtain bn off csize where b: "b = (bn, off, csize)" by (cases b)
  from Cons.prems(2) obtain blocks where dec:
    "decodeBlock s g buffers (bn, off, csize) = Inr blocks"
    unfolding b by auto
  from healInv_step[OF Cons.prems(1) dec] obtain st' where
    run: "writeStale bn blocks (zip [0..<length sd] sd) (st, False) =
            Inr (st', \<not> allStaleFailed s g sd buffers (done @ [b]))"
    and inv': "healInv s g sd buffers (done @ [b]) st'"
    unfolding b by blast
  show ?case
  proof (cases "allStaleFailed s g sd buffers (done @ [b])")
    case True
    then have "healLoop s g sd buffers (b # rest) st = Inl (joinWriteErrors (writeErrors st'))"
      by (simp add: b dec run[unfolded b])
    moreover have "\<exists>k<length (b # rest). allStaleFailed s g sd buffers (done @ take (Suc k) (b # rest))"
      using True by (intro exI[of _ 0]) simp
    ultimately show ?thesis by simp
  next
    case False
    then have eq: "healLoop s g sd buffers (b # rest) st = healLoop s g sd buffers rest st'"
      by (simp add: b dec run[unfolded b])
    from Cons.prems(2) have d: "\<forall>b\<in>set rest. \<exists>blocks. decodeBlock s g buffers b = Inr blocks"
      by simp
    have shift: "\<And>k. (done @ [b]) @ take (Suc k) rest = done @ take (Suc (Suc k)) (b # rest)"
      by simp
    have ex: "(\<exists>k<length (b # rest). allStaleFailed s g sd buffers (done @ take (Suc k) (b # rest))) =
          (\<exists>k<length rest. allStaleFailed s g sd buffers ((done @ [b]) @ take (Suc k) rest))"
    proof
      assume "\<exists>k<length (b # rest). allStaleFailed s g sd buffers (done @ take (Suc k) (b # rest))"
      then obtain k where k: "k < length (b # rest)"
        "allStaleFailed s g sd buffers (done @ take (Suc k) (b # rest))" by blast
      with False obtain k' where "k = Suc k'" by (cases k) auto
      with k show "\<exists>k<length rest. allStaleFailed s g sd buffers ((done @ [b]) @ take (Suc k) rest)"
        by (intro exI[of _ k']) simp
    next
      assume "\<exists>k<length rest. allStaleFailed s g sd buffers ((done @ [b]) @ take (Suc k) rest)"
      then obtain k where "k < length rest"
        "allStaleFailed s g sd buffers ((done @ [b]) @ take (Suc k) rest)" by blast
      then show "\<exists>k<length (b # rest). allStaleFailed s g sd buffers (done @ take (Suc k) (b # rest))"
        by (intro exI[of _ "Suc k"]) simp
    qed
    from Cons.IH[OF inv' d] show ?thesis
      unfolding eq using ex by (auto split: sum.splits)
  qed
qed

subsection \<open>Errors and checksums of HealFile\<close>

lemma copyHashes_zip:
  assumes "length (writeErrors st) = n" "length sd = n" "length cs = n"
      and "\<forall>i<n. sd ! i \<noteq> None \<longrightarrow> hashers st ! i \<noteq> None"
      and "k \<le> n"
  shows "copyHashes alg st (zip [k..<n] (drop k sd)) cs =
     Inr (map (\<lambda>j. if k \<le> j \<and> sd ! j \<noteq> None \<and> writeErrors st ! j = None
                    then Some (hashSum alg (the (hashers st ! j)))
                    else cs ! j) [0..<n])"
  using assms
proof (induction "n - k" arbitrary: k cs)
  case 0
  then have kn: "k = n" by simp
  have a: "map (\<lambda>j. if n \<le> j \<and> sd ! j \<noteq> None \<and> writeErrors st ! j = None
                    then Some (hashSum alg (the (hashers st ! j)))
                    else cs ! j) [0..<n] = map (\<lambda>j. cs ! j) [0..<n]"
    by (rule map_cong) auto
  have b: "map (\<lambda>j. cs ! j) [0..<n] = cs"
    using map_nth[of cs] "0.prems"(3) by simp
  show ?case unfolding kn a b by simp
next
  case (Suc m)
  then have kn: "k < n" by simp
  note z = zip_upt_drop_Cons[OF kn Suc.prems(2)]
  have m: "m = n - Suc k" using Suc.hyps(2) by simp
  have sk: "Suc k \<le> n" using kn by simp
  show ?case
  proof (cases "sd ! k = None \<or> writeErrors st ! k \<noteq> None")
    case True
    have eq: "copyHashes alg st (zip [k..<n] (drop k sd)) cs =
          copyHashes alg st (zip [Suc k..<n] (drop (Suc k) sd)) cs"
      using True kn Suc.prems(1) by (cases "sd ! k") (auto simp: z)
    have "map (\<lambda>j. if Suc k \<le> j \<and> sd ! j \<noteq> None \<and> writeErrors st ! j = None
                    then Some (hashSum alg (the (hashers st ! j)))
                    else cs ! j) [0..<n] =
          map (\<lambda>j. if k \<le> j \<and> sd ! j \<noteq> None \<and> writeErrors st ! j = None
                    then Some (hashSum alg (the (hashers st ! j)))
                    else cs ! j) [0..<n]"
    proof (intro map_cong refl)
      fix j assume "j \<in> set [0..<n]"
      show "(if Suc k \<le> j \<and> sd ! j \<noteq> None \<and> writeErrors st ! j = None
             then Some (hashSum alg (the (hashers st ! j))) else cs ! j) =
            (if k \<le> j \<and> sd ! j \<noteq> None \<and> writeErrors st ! j = None
             then Some (hashSum alg (the (hashers st ! j))) else cs ! j)"
        using True by (cases "j = k") auto
    qed
    then show ?thesis
      unfolding eq Suc.hyps(1)[OF m Suc.prems(1,2,3,4) sk] by simp
  next
    case False
    then obtain d where d: "sd ! k = Some d" and w: "writeErrors st ! k = None" by auto
    obtain h where h: "hashers st ! k = Some h"
      using Suc.prems(4) kn d by auto
    let ?cs = "cs[k := Some (hashSum alg h)]"
    have eq: "copyHashes alg st (zip [k..<n] (drop k sd)) cs =
          copyHashes alg st (zip [Suc k..<n] (drop (Suc k) sd)) ?cs"
      using d w kn Suc.prems(1) h by (simp add: z)
    have p3: "length ?cs = n" using Suc.prems(3) by simp
    have "map (\<lambda>j. if Suc k \<le> j \<and> sd ! j \<noteq> None \<and> writeErrors st ! j = None
                    then Some (hashSum alg (the (hashers st ! j)))
                    else ?cs ! j) [0..<n] =
          map (\<lambda>j. if k \<le> j \<and> sd ! j \<noteq> None \<and> writeErrors st ! j = None
                    then Some (hashSum alg (the (hashers st ! j)))
                    else cs ! j) [0..<n]"
    proof (intro map_cong refl)
      fix j assume "j \<in> set [0..<n]"
      then have j: "j < n" by simp
      show "(if Suc k \<le> j \<and> sd ! j \<noteq> None \<and> writeErrors st ! j = None
             then Some (hashSum alg (the (hashers st ! j))) else ?cs ! j) =
            (if k \<le> j \<and> sd ! j \<noteq> None \<and> writeErrors st ! j = None
             then Some (hashSum alg (the (hashers st ! j))) else cs ! j)"
        using d w h kn Suc.prems(3) j by (cases "j = k") (auto simp: nth_list_update)
    qed
    then show ?thesis
      unfolding eq Suc.hyps(1)[OF m Suc.prems(1,2) p3 Suc.prems(4) sk] by simp
  qed
qed

lemma initPanics_eq_lengths:
  "length staleDisks = length ds \<Longrightarrow> length checksums = length ds \<Longrightarrow>
   \<not> initPanics ds staleDisks checksums"
  by (auto simp: initPanics_def list_ex_iff)

lemma healInv_init:
  assumes "length sd = length (disks s)"
  shows "healInv s g sd buffers []
           \<lparr>writeErrors = replicate (length (disks s)) None, hashers = initHashers (disks s) sd\<rparr>"
  using assms by (auto simp: healInv_def initHashers_def)

lemma set_take_Suc_iff:
  "k < length L \<Longrightarrow> (\<exists>b\<in>set (take (Suc k) L). P b) = (\<exists>k'\<le>k. P (L ! k'))"
proof
  assume k: "k < length L" and "\<exists>b\<in>set (take (Suc k) L). P b"
  then obtain b where "b \<in> set (take (Suc k) L)" "P b" by blast
  then obtain j where "j < length (take (Suc k) L)" "take (Suc k) L ! j = b"
    by (auto simp: in_set_conv_nth)
  with k \<open>P b\<close> show "\<exists>k'\<le>k. P (L ! k')" by (intro exI[of _ j]) auto
next
  assume k: "k < length L" and "\<exists>k'\<le>k. P (L ! k')"
  then obtain k' where k': "k' \<le> k" "P (L ! k')" by blast
  with k have "L ! k' \<in> set (take (Suc k) L)"
    by (auto simp: in_set_conv_nth intro!: exI[of _ k'])
  with k' show "\<exists>b\<in>set (take (Suc k) L). P b" by blast
qed


subsection \<open>Slices within the buffers\<close>

lemma those_map_Some:
  "\<forall>x\<in>set xs. f x \<noteq> None \<Longrightarrow> those (map f xs) = Some (map (\<lambda>x. the (f x)) xs)"
  by (induction xs) auto

lemma slice_in_bounds:
  assumes "0 \<le> lo" and "lo \<le> hi" and "hi \<le> int (length (elems buf))"
  shows "slice buf lo hi \<noteq> None"
  using assms by (simp add: slice_def)

lemma blocksOf_in_bounds:
  assumes "0 \<le> off" and "0 \<le> csize" and "off + csize \<le> k"
      and "buffersHold n buffers k" and "0 \<le> lastChunkSize g"
  shows "\<exists>blocks. blocksOf g n buffers (bn, off, csize) = Inr blocks"
proof -
  have np: "\<not> allocPanics n buffers (lastChunkSize g)"
    using assms(5) by (simp add: allocPanics_def)
  have "\<forall>i\<in>set [0..<n]. (if len (buffers i) = 0 then Some []
                           else slice (buffers i) off (off + csize)) \<noteq> None"
  proof
    fix i assume i: "i \<in> set [0..<n]"
    show "(if len (buffers i) = 0 then Some []
           else slice (buffers i) off (off + csize)) \<noteq> None"
    proof (cases "len (buffers i) = 0")
      case True
      then show ?thesis by simp
    next
      case False
      from assms(4) i have "len (buffers i) = 0 \<or> k \<le> int (length (elems (buffers i)))"
        unfolding buffersHold_def list_all_iff by blast
      with False have "k \<le> int (length (elems (buffers i)))" by simp
      with assms(1,2,3) have "slice (buffers i) off (off + csize) \<noteq> None"
        by (intro slice_in_bounds) auto
      with False show ?thesis by simp
    qed
  qed
  from those_map_Some[OF this] np show ?thesis
    by (simp add: blocksOf_def)
qed

lemma healBlocks_in_bounds:
  assumes "0 \<le> numBlocks g" and "0 \<le> chunksize g" and "0 \<le> lastChunkSize g"
      and "(bn, off, csize) \<in> set (healBlocks g 0 0)"
  shows "0 \<le> off \<and> 0 \<le> csize \<and>
         off + csize \<le> chunksize g * (numBlocks g - 1) + lastChunkSize g"
proof -
  from assms(4) healBlocks_from[OF assms(1), of 0]
  have bn: "0 \<le> bn" "bn \<le> numBlocks g - 1" and off: "off = bn * chunksize g"
    and cs: "csize = (if bn = numBlocks g - 1 then lastChunkSize g else chunksize g)"
    by auto
  have o: "0 \<le> off" using bn(1) assms(2) by (simp add: off)
  have c: "0 \<le> csize" using assms(2,3) by (simp add: cs)
  have "off + csize \<le> chunksize g * (numBlocks g - 1) + lastChunkSize g"
  proof (cases "bn = numBlocks g - 1")
    case True
    then show ?thesis by (simp add: off cs mult.commute)
  next
    case False
    with bn(2) have "bn + 1 \<le> numBlocks g - 1" by simp
    then have "(bn + 1) * chunksize g \<le> (numBlocks g - 1) * chunksize g"
      using assms(2) by (rule mult_right_mono)
    then show ?thesis using False assms(3) by (simp add: off cs algebra_simps)
  qed
  with o c show ?thesis by simp
qed

lemma healStripe_nonneg:
  assumes "0 < blocksize" and "0 < N" and "0 \<le> sz"
  shows "0 \<le> numBlocks (healStripe blocksize N sz)"
    and "0 \<le> chunksize (healStripe blocksize N sz)"
    and "0 \<le> lastChunkSize (healStripe blocksize N sz)"
    and "readLen (healStripe blocksize N sz) =
           chunksize (healStripe blocksize N sz) * (numBlocks (healStripe blocksize N sz) - 1)
           + lastChunkSize (healStripe blocksize N sz)"
proof -
  have rem: "go_rem sz blocksize = sz mod blocksize"
    using assms by (simp add: go_rem_nonneg)
  have m: "0 \<le> sz mod blocksize" using assms(1) by simp
  show "0 \<le> numBlocks (healStripe blocksize N sz)"
    using assms by (simp add: healStripe_def Let_def ceilFrac_nonneg)
  show "0 \<le> chunksize (healStripe blocksize N sz)"
    using assms by (simp add: healStripe_def Let_def ceilFrac_nonneg)
  show "0 \<le> lastChunkSize (healStripe blocksize N sz)"
    using assms m by (simp add: healStripe_def Let_def ceilFrac_nonneg rem)
  show "readLen (healStripe blocksize N sz) =
           chunksize (healStripe blocksize N sz) * (numBlocks (healStripe blocksize N sz) - 1)
           + lastChunkSize (healStripe blocksize N sz)"
    by (simp add: healStripe_def Let_def)
qed

lemma exStripe: "healStripe 4 2 6 = \<lparr>chunksize = 2, numBlocks = 2, lastChunkSize = 1, readLen = 3\<rparr>"
  by (simp add: healStripe_def ceilFrac_def go_rem_def Let_def)

lemma exBlocks: "healBlocks (healStripe 4 2 6) 0 0 = [(0, 0, 2), (1, 2, 1)]"
  unfolding exStripe by (simp add: healBlocks.simps)

lemma upt3: "[0..<3] = [0, 1, 2]"
  by (simp add: upt_rec)

lemma exLengths: "length (disks exStorage) = 3" "dataBlocks exStorage = 2"
  by (simp_all add: exStorage_def)

lemma exBlocksOf:
  "blocksOf (healStripe 4 2 6) 3 exBuffers (0, 0, 2) = Inr [[1, 2], [], []]"
  "blocksOf (healStripe 4 2 6) 3 exBuffers (1, 2, 1) = Inr [[3], [], []]"
  by (simp_all add: blocksOf_def exStripe allocPanics_def upt3 slice_def exBuffers_def)

lemma exDecodeBlock:
  "decodeBlock exStorage (healStripe 4 2 6) exBuffers (0, 0, 2) = Inr (\<lambda>i. [1, 2])"
  "decodeBlock exStorage (healStripe 4 2 6) exBuffers (1, 2, 1) = Inr (\<lambda>i. [3])"
  unfolding decodeBlock_def exLengths exBlocksOf by (simp_all add: exStorage_def)

lemma exInit:
  "initHashers (disks exStorage) exStale = [None, Some [], Some []]"
  "replicate (length (disks exStorage)) (None :: string option) = [None, None, None]"
  "replicate (length (disks exStorage)) (None :: byte list option) = [None, None, None]"
  "\<not> initPanics (disks exStorage) exStale exChecksums"
  "zip [0..<length exStale] exStale = [(0, None), (1, Some exDiskOK), (2, Some exDiskBad)]"
  "\<not> allocPanics (length (disks exStorage)) exBuffers 2"
  by (simp_all add: initHashers_def initPanics_def exStorage_def exStale_def exChecksums_def
      upt3 numeral_3_eq_3 allocPanics_def)

lemma exHeal:
  "HealFile exStorage exStale 4 6 exAlg exChecksums =
     Inr \<lparr>Size = 6, Algorithm = exAlg, Checksums = [None, Some [3, 2, 1], None]\<rparr>"
proof -
  have loop: "healLoop exStorage (healStripe 4 2 6) exStale exBuffers [(0, 0, 2), (1, 2, 1)]
      \<lparr>writeErrors = [None, None, None], hashers = [None, Some [], Some []]\<rparr> =
      Inr \<lparr>writeErrors = [None, None, Some ''EIO''],
           hashers = [None, Some [1, 2, 3], Some [1, 2]]\<rparr>"
    by (simp add: exDecodeBlock exInit(5) exDiskOK_def exDiskBad_def)
  have rd: "readConcurrent exStorage (readLen (healStripe 4 2 6))
              (initVerifiers (disks exStorage) exStale exChecksums) = Inr exBuffers"
    by (simp add: exStorage_def)
  have al: "Available exAlg" "hashSum exAlg = rev" by (simp_all add: exAlg_def)
  have c: "chunksize (healStripe 4 2 6) = 2" by (simp add: exStripe)
  show ?thesis
    unfolding HealFile_def exLengths(2) Let_def exBlocks exInit rd sum.case c loop
    by (simp add: al exInit(4,6))
qed

text \<open>
  The same heal for a file of 8 bytes: the read length is 4, and the chunk of the
  second block lies beyond the 3 bytes of the buffer of disk 0, so that the slice
  expression of line 131 panics.
\<close>

lemma exHealShort: "HealFile exStorage exStale 4 8 exAlg exChecksums = Inl runtimePanic"
proof -
  have g: "healStripe 4 2 8 = \<lparr>chunksize = 2, numBlocks = 2, lastChunkSize = 2, readLen = 4\<rparr>"
    by (simp add: healStripe_def ceilFrac_def go_rem_def Let_def)
  have L: "healBlocks (healStripe 4 2 8) 0 0 = [(0, 0, 2), (1, 2, 2)]"
    unfolding g by (simp add: healBlocks.simps)
  have b0: "decodeBlock exStorage (healStripe 4 2 8) exBuffers (0, 0, 2) = Inr (\<lambda>i. [1, 2])"
    unfolding decodeBlock_def exLengths
    by (simp add: blocksOf_def g allocPanics_def upt3 slice_def exBuffers_def exStorage_def)
  have b1: "decodeBlock exStorage (healStripe 4 2 8) exBuffers (1, 2, 2) = Inl runtimePanic"
    unfolding decodeBlock_def exLengths
    by (simp add: blocksOf_def g allocPanics_def upt3 slice_def exBuffers_def)
  have loop: "healLoop exStorage (healStripe 4 2 8) exStale exBuffers [(0, 0, 2), (1, 2, 2)]
      \<lparr>writeErrors = [None, None, None], hashers = [None, Some [], Some []]\<rparr> =
      Inl runtimePanic"
    by (simp add: b0 b1 exInit(5) exDiskOK_def exDiskBad_def)
  have rd: "readConcurrent exStorage (readLen (healStripe 4 2 8))
              (initVerifiers (disks exStorage) exStale exChecksums) = Inr exBuffers"
    by (simp add: exStorage_def)
  have al: "Available exAlg" by (simp add: exAlg_def)
  have nb: "chunksize (healStripe 4 2 8) = 2" by (simp add: g)
  show ?thesis
    unfolding HealFile_def exLengths(2) Let_def L exInit rd sum.case nb loop
    by (simp add: al exInit(4,6))
qed

text \<open>
  Claim C2, as amended.  For a call with an available bitrot algorithm, as many
  stale-disk entries and checksums as the storage has disks, a positive block size, a
  positive number of data blocks, a size that is not negative, a concurrent read that
  succeeds with buffers each of which has the length zero or a capacity of at least
  the read length, and a decoder that succeeds on every block:
  \<open>HealFile\<close> returns an error exactly when, for some block, every non-nil stale
  disk has had a failing append in that block or an earlier one; and when it returns a
  file info, its size is the given size and its checksums hold, at the index of every
  non-nil stale disk none of whose appends failed, the hash of all the chunks appended
  to that disk, and nil at every other index.
\<close>

theorem HealFile_errors_and_checksums:
  fixes s :: ErasureStorage and blocksize sz :: int
  defines "g \<equiv> healStripe blocksize (dataBlocks s) sz"
  assumes "Available alg"
      and "length staleDisks = length (disks s)"
      and "length checksums = length (disks s)"
      and "0 < blocksize" and "0 < dataBlocks s" and "0 \<le> sz"
      and "readConcurrent s (readLen g) (initVerifiers (disks s) staleDisks checksums)
             = Inr buffers"
      and "buffersHold (length (disks s)) buffers (readLen g)"
      and "\<forall>b\<in>set (healBlocks g 0 0). decodes s g buffers b"
  shows "((\<exists>err. HealFile s staleDisks blocksize sz alg checksums = Inl err) \<longleftrightarrow>
          (\<exists>k<length (healBlocks g 0 0).
             \<forall>i<length staleDisks. staleDisks ! i \<noteq> None \<longrightarrow>
               (\<exists>k'\<le>k. appendFails s g staleDisks buffers (healBlocks g 0 0 ! k') i))) \<and>
         (\<forall>f. HealFile s staleDisks blocksize sz alg checksums = Inr f \<longrightarrow>
            Size f = sz \<and>
            Checksums f =
              map (\<lambda>i. if staleDisks ! i \<noteq> None \<and>
                          (\<forall>k<length (healBlocks g 0 0).
                             \<not> appendFails s g staleDisks buffers (healBlocks g 0 0 ! k) i)
                        then Some (hashSum alg
                               (concat (map (\<lambda>b. chunkOf s g buffers b i) (healBlocks g 0 0))))
                        else None)
                [0..<length (disks s)])"
proof -
  let ?L = "healBlocks g 0 0"
  let ?n = "length (disks s)"
  let ?st0 = "\<lparr>writeErrors = replicate ?n None, hashers = initHashers (disks s) staleDisks\<rparr>"
  have np: "\<not> initPanics (disks s) staleDisks checksums"
    using assms(3,4) by (rule initPanics_eq_lengths)
  note nn = healStripe_nonneg[OF assms(5,6,7), folded g_def]
  have na: "\<not> allocPanics ?n buffers (chunksize g)"
    using nn(2) by (simp add: allocPanics_def)
  have unfold: "HealFile s staleDisks blocksize sz alg checksums =
      (case healLoop s g staleDisks buffers ?L ?st0 of
         Inl err \<Rightarrow> Inl err
       | Inr st \<Rightarrow>
           (case copyHashes alg st (zip [0..<length staleDisks] staleDisks) (replicate ?n None) of
              Inl err \<Rightarrow> Inl err
            | Inr cs \<Rightarrow> Inr \<lparr>Size = sz, Algorithm = alg, Checksums = cs\<rparr>))"
    using assms(2,5,8) np na by (simp add: HealFile_def Let_def g_def)
  have dec: "\<forall>b\<in>set ?L. \<exists>blocks. decodeBlock s g buffers b = Inr blocks"
  proof
    fix b assume b: "b \<in> set ?L"
    obtain bn off csize where t: "b = (bn, off, csize)" by (cases b)
    from healBlocks_in_bounds[OF nn(1,2,3) b[unfolded t]]
    have bd: "0 \<le> off" "0 \<le> csize" "off + csize \<le> readLen g"
      by (simp_all add: nn(4))
    from blocksOf_in_bounds[OF bd assms(9) nn(3), of bn] obtain bl where
      bl: "blocksOf g ?n buffers b = Inr bl" unfolding t by blast
    from assms(10) b have "decodes s g buffers b" by blast
    with bl obtain blocks where "ErasureDecodeDataAndParityBlocks s bl = Inr blocks"
      by (auto simp: decodes_def split: sum.splits)
    with bl show "\<exists>blocks. decodeBlock s g buffers b = Inr blocks"
      by (simp add: decodeBlock_def)
  qed
  have idx: "(\<exists>k<length ?L. allStaleFailed s g staleDisks buffers ([] @ take (Suc k) ?L)) =
        (\<exists>k<length ?L. \<forall>i<length staleDisks. staleDisks ! i \<noteq> None \<longrightarrow>
               (\<exists>k'\<le>k. appendFails s g staleDisks buffers (?L ! k') i))"
    by (auto simp: allStaleFailed_def set_take_Suc_iff)
  note loop = healLoop_result[OF healInv_init[OF assms(3), of g buffers] dec]
  show ?thesis
  proof (cases "healLoop s g staleDisks buffers ?L ?st0")
    case (Inl e)
    with loop have "\<exists>k<length ?L. allStaleFailed s g staleDisks buffers ([] @ take (Suc k) ?L)"
      by simp
    then have err: "\<exists>k<length ?L. \<forall>i<length staleDisks. staleDisks ! i \<noteq> None \<longrightarrow>
               (\<exists>k'\<le>k. appendFails s g staleDisks buffers (?L ! k') i)"
      unfolding idx .
    have res: "HealFile s staleDisks blocksize sz alg checksums = Inl e"
      unfolding unfold Inl by simp
    show ?thesis
      unfolding res using err by simp
  next
    case (Inr st)
    with loop have inv: "healInv s g staleDisks buffers ?L st"
      and nf: "\<not> (\<exists>k<length ?L. allStaleFailed s g staleDisks buffers ([] @ take (Suc k) ?L))"
      by auto
    from inv have len: "length (writeErrors st) = ?n"
      and hne: "\<forall>i<?n. staleDisks ! i \<noteq> None \<longrightarrow> hashers st ! i \<noteq> None"
      and we: "\<And>i. i < ?n \<Longrightarrow> staleDisks ! i \<noteq> None \<Longrightarrow>
         (writeErrors st ! i \<noteq> None) = (\<exists>b\<in>set ?L. appendFails s g staleDisks buffers b i)"
      and hs: "\<And>i. i < ?n \<Longrightarrow> staleDisks ! i \<noteq> None \<Longrightarrow> writeErrors st ! i = None \<Longrightarrow>
         hashers st ! i = Some (concat (map (\<lambda>b. chunkOf s g buffers b i) ?L))"
      using assms(3) by (auto simp: healInv_def)
    have cp: "copyHashes alg st (zip [0..<length staleDisks] staleDisks) (replicate ?n None) =
        Inr (map (\<lambda>j. if 0 \<le> j \<and> staleDisks ! j \<noteq> None \<and> writeErrors st ! j = None
                    then Some (hashSum alg (the (hashers st ! j)))
                    else replicate ?n None ! j) [0..<?n])"
      using copyHashes_zip[OF len assms(3) _ hne, of "replicate ?n None" 0 alg] assms(3) by simp
    have cs: "map (\<lambda>j. if 0 \<le> j \<and> staleDisks ! j \<noteq> None \<and> writeErrors st ! j = None
                    then Some (hashSum alg (the (hashers st ! j)))
                    else replicate ?n None ! j) [0..<?n] =
              map (\<lambda>i. if staleDisks ! i \<noteq> None \<and>
                          (\<forall>k<length ?L. \<not> appendFails s g staleDisks buffers (?L ! k) i)
                        then Some (hashSum alg (concat (map (\<lambda>b. chunkOf s g buffers b i) ?L)))
                        else None) [0..<?n]"
    proof (intro map_cong refl)
      fix i assume "i \<in> set [0..<?n]"
      then have i: "i < ?n" by simp
      show "(if 0 \<le> i \<and> staleDisks ! i \<noteq> None \<and> writeErrors st ! i = None
             then Some (hashSum alg (the (hashers st ! i))) else replicate ?n None ! i) =
            (if staleDisks ! i \<noteq> None \<and>
                  (\<forall>k<length ?L. \<not> appendFails s g staleDisks buffers (?L ! k) i)
             then Some (hashSum alg (concat (map (\<lambda>b. chunkOf s g buffers b i) ?L))) else None)"
      proof (cases "staleDisks ! i \<noteq> None")
        case False
        then show ?thesis using i by simp
      next
        case True
        have "(\<exists>b\<in>set ?L. appendFails s g staleDisks buffers b i) =
              (\<exists>k<length ?L. appendFails s g staleDisks buffers (?L ! k) i)"
          by (metis in_set_conv_nth)
        then have "(writeErrors st ! i = None) =
              (\<forall>k<length ?L. \<not> appendFails s g staleDisks buffers (?L ! k) i)"
          using we[OF i True] by auto
        then show ?thesis using True i hs[OF i True] by auto
      qed
    qed
    have res: "HealFile s staleDisks blocksize sz alg checksums =
        Inr \<lparr>Size = sz, Algorithm = alg,
             Checksums = map (\<lambda>i. if staleDisks ! i \<noteq> None \<and>
                          (\<forall>k<length ?L. \<not> appendFails s g staleDisks buffers (?L ! k) i)
                        then Some (hashSum alg (concat (map (\<lambda>b. chunkOf s g buffers b i) ?L)))
                        else None) [0..<?n]\<rparr>"
      using cp unfolding cs by (simp add: unfold Inr)
    have noerr: "\<not> (\<exists>k<length ?L. \<forall>i<length staleDisks. staleDisks ! i \<noteq> None \<longrightarrow>
               (\<exists>k'\<le>k. appendFails s g staleDisks buffers (?L ! k') i))"
      using nf unfolding idx .
    show ?thesis
      unfolding res using noerr by simp
  qed
qed

text \<open>The concrete heal satisfies the hypotheses; disk 1 is healed, disk 2 is not.\<close>

theorem HealFile_errors_and_checksums_witness:
  "Available exAlg \<and> length exStale = length (disks exStorage) \<and>
   length exChecksums = length (disks exStorage) \<and>
   (0::int) < 4 \<and> 0 < dataBlocks exStorage \<and> (0::int) \<le> 6 \<and>
   readConcurrent exStorage (readLen (healStripe 4 (dataBlocks exStorage) 6))
     (initVerifiers (disks exStorage) exStale exChecksums) = Inr exBuffers \<and>
   buffersHold (length (disks exStorage)) exBuffers
     (readLen (healStripe 4 (dataBlocks exStorage) 6)) \<and>
   healBlocks (healStripe 4 2 6) 0 0 = [(0, 0, 2), (1, 2, 1)] \<and>
   decodes exStorage (healStripe 4 2 6) exBuffers (0, 0, 2) \<and>
   decodes exStorage (healStripe 4 2 6) exBuffers (1, 2, 1) \<and>
   appendFails exStorage (healStripe 4 2 6) exStale exBuffers (1, 2, 1) 2 \<and>
   \<not> appendFails exStorage (healStripe 4 2 6) exStale exBuffers (0, 0, 2) 1 \<and>
   \<not> appendFails exStorage (healStripe 4 2 6) exStale exBuffers (1, 2, 1) 1 \<and>
   map (\<lambda>b. chunkOf exStorage (healStripe 4 2 6) exBuffers b 1) [(0, 0, 2), (1, 2, 1)]
     = [[1, 2], [3]] \<and>
   (\<exists>f. HealFile exStorage exStale 4 6 exAlg exChecksums = Inr f \<and> Size f = 6 \<and>
        Checksums f = [None, Some [3, 2, 1], None])"
proof -
  let ?g = "healStripe 4 2 6"
  note db = exLengths(2)
  note n3 = exLengths(1)
  have h1: "Available exAlg" by (simp add: exAlg_def)
  have h2: "length exStale = length (disks exStorage)" by (simp add: exStale_def exStorage_def)
  have h3: "length exChecksums = length (disks exStorage)"
    by (simp add: exChecksums_def exStorage_def)
  have h4: "(0::int) < 4" "0 < dataBlocks exStorage" "(0::int) \<le> 6" by (simp_all add: db)
  have h5: "readConcurrent exStorage (readLen (healStripe 4 (dataBlocks exStorage) 6))
     (initVerifiers (disks exStorage) exStale exChecksums) = Inr exBuffers"
    by (simp add: exStorage_def)
  have h6: "buffersHold (length (disks exStorage)) exBuffers
     (readLen (healStripe 4 (dataBlocks exStorage) 6))"
    unfolding db n3 exStripe by (simp add: buffersHold_def upt3 exBuffers_def)
  have L: "healBlocks (healStripe 4 (dataBlocks exStorage) 6) 0 0 = [(0, 0, 2), (1, 2, 1)]"
    unfolding db by (rule exBlocks)
  have d0: "decodes exStorage ?g exBuffers (0, 0, 2)"
    unfolding decodes_def n3 exBlocksOf by (simp add: exStorage_def)
  have d1: "decodes exStorage ?g exBuffers (1, 2, 1)"
    unfolding decodes_def n3 exBlocksOf by (simp add: exStorage_def)
  have h7: "\<forall>b\<in>set (healBlocks (healStripe 4 (dataBlocks exStorage) 6) 0 0).
              decodes exStorage (healStripe 4 (dataBlocks exStorage) 6) exBuffers b"
    unfolding L unfolding db using d0 d1 by simp
  have ch: "map (\<lambda>b. chunkOf exStorage ?g exBuffers b 1) [(0, 0, 2), (1, 2, 1)] = [[1, 2], [3]]"
    by (simp add: chunkOf_def exDecodeBlock)
  have f2: "appendFails exStorage ?g exStale exBuffers (1, 2, 1) 2"
    by (simp add: appendFails_def exStale_def exDiskBad_def)
  have f1: "\<not> appendFails exStorage ?g exStale exBuffers (0, 0, 2) 1"
           "\<not> appendFails exStorage ?g exStale exBuffers (1, 2, 1) 1"
    by (simp_all add: appendFails_def exStale_def exDiskOK_def)
  note inst = HealFile_errors_and_checksums[OF h1 h2 h3 h4 h5 h6 h7, unfolded L, unfolded db]
  have noerr: "\<not> (\<exists>k<length [(0::int, 0::int, 2::int), (1, 2, 1)].
             \<forall>i<length exStale. exStale ! i \<noteq> None \<longrightarrow>
               (\<exists>k'\<le>k. appendFails exStorage ?g exStale exBuffers
                           ([(0, 0, 2), (1, 2, 1)] ! k') i))"
  proof
    assume "\<exists>k<length [(0::int, 0::int, 2::int), (1, 2, 1)].
             \<forall>i<length exStale. exStale ! i \<noteq> None \<longrightarrow>
               (\<exists>k'\<le>k. appendFails exStorage ?g exStale exBuffers
                           ([(0, 0, 2), (1, 2, 1)] ! k') i)"
    then obtain k where k: "k < length [(0::int, 0::int, 2::int), (1, 2, 1)]" and
      a: "\<forall>i<length exStale. exStale ! i \<noteq> None \<longrightarrow>
               (\<exists>k'\<le>k. appendFails exStorage ?g exStale exBuffers
                           ([(0, 0, 2), (1, 2, 1)] ! k') i)" by blast
    have "1 < length exStale" "exStale ! 1 \<noteq> None" by (simp_all add: exStale_def)
    with a obtain k' where k': "k' \<le> k"
      "appendFails exStorage ?g exStale exBuffers ([(0, 0, 2), (1, 2, 1)] ! k') 1" by blast
    from k k' have "k' = 0 \<or> k' = 1" by auto
    with k'(2) f1 show False by auto
  qed
  from inst noerr obtain f where
    f: "HealFile exStorage exStale 4 6 exAlg exChecksums = Inr f"
    by (cases "HealFile exStorage exStale 4 6 exAlg exChecksums") auto
  with inst have cs: "Size f = 6" "Checksums f =
      map (\<lambda>i. if exStale ! i \<noteq> None \<and>
                  (\<forall>k<length [(0::int, 0::int, 2::int), (1, 2, 1)].
                     \<not> appendFails exStorage ?g exStale exBuffers ([(0, 0, 2), (1, 2, 1)] ! k) i)
                then Some (hashSum exAlg
                       (concat (map (\<lambda>b. chunkOf exStorage ?g exBuffers b i)
                          [(0, 0, 2), (1, 2, 1)])))
                else None)
        [0..<length (disks exStorage)]" by auto
  have st: "exStale ! 0 = None" "exStale ! 1 \<noteq> None" "exStale ! 2 \<noteq> None"
    by (simp_all add: exStale_def)
  have a1: "\<forall>k<length [(0::int, 0::int, 2::int), (1, 2, 1)].
              \<not> appendFails exStorage ?g exStale exBuffers ([(0, 0, 2), (1, 2, 1)] ! k) 1"
    using f1 by (simp add: All_less_Suc)
  have a2: "\<not> (\<forall>k<length [(0::int, 0::int, 2::int), (1, 2, 1)].
              \<not> appendFails exStorage ?g exStale exBuffers ([(0, 0, 2), (1, 2, 1)] ! k) 2)"
    using f2 by (simp add: All_less_Suc)
  have "Checksums f = [None, Some [3, 2, 1], None]"
    unfolding cs(2) n3 upt3 using a1 a2 st ch
    by (simp add: exAlg_def)
  with f cs(1) have "\<exists>f. HealFile exStorage exStale 4 6 exAlg exChecksums = Inr f \<and> Size f = 6 \<and>
        Checksums f = [None, Some [3, 2, 1], None]" by blast
  with h1 h2 h3 h4 h5 h6 exBlocks d0 d1 f2 f1 ch show ?thesis by simp
qed

text \<open>
  Claim C2 as stated fails: with a bitrot algorithm that is not available,
  \<open>HealFile\<close> returns an error although stale disk 1 has no write error in any
  block.
\<close>

theorem HealFile_error_without_write_error:
  "HealFile exStorage exStale 4 6 (exAlg\<lparr>Available := False\<rparr>) exChecksums =
     Inl errBitrotHashAlgoInvalid \<and>
   healBlocks (healStripe 4 (dataBlocks exStorage) 6) 0 0 = [(0, 0, 2), (1, 2, 1)] \<and>
   exStale ! 1 = Some exDiskOK \<and>
   \<not> appendFails exStorage (healStripe 4 (dataBlocks exStorage) 6) exStale exBuffers (0, 0, 2) 1 \<and>
   \<not> appendFails exStorage (healStripe 4 (dataBlocks exStorage) 6) exStale exBuffers (1, 2, 1) 1"
proof -
  have db: "dataBlocks exStorage = 2" by (simp add: exStorage_def)
  have L: "healBlocks (healStripe 4 (dataBlocks exStorage) 6) 0 0 = [(0, 0, 2), (1, 2, 1)]"
    unfolding db by (rule exBlocks)
  have e: "HealFile exStorage exStale 4 6 (exAlg\<lparr>Available := False\<rparr>) exChecksums =
     Inl errBitrotHashAlgoInvalid"
    by (simp add: HealFile_def)
  have f1: "\<not> appendFails exStorage (healStripe 4 (dataBlocks exStorage) 6) exStale exBuffers
              (0, 0, 2) 1"
           "\<not> appendFails exStorage (healStripe 4 (dataBlocks exStorage) 6) exStale exBuffers
              (1, 2, 1) 1"
    by (simp_all add: appendFails_def exStale_def exDiskOK_def)
  have s: "exStale ! 1 = Some exDiskOK" by (simp add: exStale_def)
  from e L f1 s show ?thesis by simp
qed

section \<open>Theorems: namespace lock map\<close>

subsection \<open>The invariant of the map\<close>

lemma unat_inc64:
  fixes r :: "64 word"
  assumes "unat r \<le> k" "Suc k < 2 ^ 64"
  shows "unat (r + 1) = Suc (unat r)"
proof -
  have "unat (r + 1) = (unat r + unat (1 :: 64 word)) mod 2 ^ LENGTH(64)"
    by (simp add: unat_word_ariths)
  also have "\<dots> = (unat r + 1) mod 2 ^ 64" by simp
  also have "\<dots> = unat r + 1" using assms by simp
  finally show ?thesis by simp
qed

lemma unat_dec64:
  fixes r :: "64 word"
  assumes "0 < unat r"
  shows "unat (r - 1) = unat r - 1"
  using assms by (simp add: unat_minus_one unat_gt_0)

lemma lockInv_mono: "lockInv k s \<Longrightarrow> k \<le> k' \<Longrightarrow> lockInv k' s"
  unfolding lockInv_def by (meson le_trans)

lemma lockInv_init: "lockInv 0 initSystem"
  by (simp add: lockInv_def initSystem_def newNSLock_def)

lemma lockInvD:
  assumes "lockInv k s"
  shows "lockMap (nsMutex s) p = Some a \<Longrightarrow> a < nextObj (nsMutex s)"
    and "lockMap (nsMutex s) p = Some a \<Longrightarrow> 0 < unat (ref (objs (nsMutex s) a))"
    and "lockMap (nsMutex s) p = Some a \<Longrightarrow> unat (ref (objs (nsMutex s) a)) \<le> k"
    and "lockMap (nsMutex s) p = Some a \<Longrightarrow> lockMap (nsMutex s) q = Some a \<Longrightarrow> q = p"
    and "(p, a) \<in> set (blocked s) \<Longrightarrow> a < nextObj (nsMutex s)"
    and "(p, a) \<in> set (blocked s) \<Longrightarrow> lockMap (nsMutex s) q = Some a \<Longrightarrow> q = p"
  using assms unfolding lockInv_def by blast+

lemma lockInvI:
  assumes "\<And>p a. lockMap (nsMutex s) p = Some a \<Longrightarrow> a < nextObj (nsMutex s)"
    and "\<And>p a. lockMap (nsMutex s) p = Some a \<Longrightarrow> 0 < unat (ref (objs (nsMutex s) a))"
    and "\<And>p a. lockMap (nsMutex s) p = Some a \<Longrightarrow> unat (ref (objs (nsMutex s) a)) \<le> k"
    and "\<And>p a q. lockMap (nsMutex s) p = Some a \<Longrightarrow> lockMap (nsMutex s) q = Some a \<Longrightarrow> q = p"
    and "\<And>p a. (p, a) \<in> set (blocked s) \<Longrightarrow> a < nextObj (nsMutex s)"
    and "\<And>p a q. (p, a) \<in> set (blocked s) \<Longrightarrow> lockMap (nsMutex s) q = Some a \<Longrightarrow> q = p"
  shows "lockInv k s"
  unfolding lockInv_def using assms by blast

lemma lockEnter_new:
  assumes "lockMap n \<lparr>volume = vol, path = pth\<rparr> = None"
  shows "fst (lockEnter n vol pth) = nextObj n"
    and "lockMap (snd (lockEnter n vol pth)) = (lockMap n)(\<lparr>volume = vol, path = pth\<rparr> \<mapsto> nextObj n)"
    and "objs (snd (lockEnter n vol pth)) = (objs n)(nextObj n := \<lparr>ref = 1\<rparr>)"
    and "nextObj (snd (lockEnter n vol pth)) = Suc (nextObj n)"
    and "logged (snd (lockEnter n vol pth)) = logged n"
  using assms by (simp_all add: lockEnter_def Let_def)

lemma lockEnter_found:
  assumes "lockMap n \<lparr>volume = vol, path = pth\<rparr> = Some a"
  shows "fst (lockEnter n vol pth) = a"
    and "lockMap (snd (lockEnter n vol pth)) = lockMap n"
    and "objs (snd (lockEnter n vol pth)) = (objs n)(a := \<lparr>ref = ref (objs n a) + 1\<rparr>)"
    and "nextObj (snd (lockEnter n vol pth)) = nextObj n"
    and "logged (snd (lockEnter n vol pth)) = logged n"
  using assms by (simp_all add: lockEnter_def Let_def)

lemma step_LockEnter:
  "step (LockEnter vol pth) s = Some s' \<Longrightarrow>
   nsMutex s' = snd (lockEnter (nsMutex s) vol pth) \<and>
   blocked s' = (\<lparr>volume = vol, path = pth\<rparr>, fst (lockEnter (nsMutex s) vol pth)) # blocked s"
  by (auto simp: split_def Let_def)

lemma lockInv_LockEnter:
  assumes inv: "lockInv k s" and k: "Suc k < 2 ^ 64"
      and st: "step (LockEnter vol pth) s = Some s'"
  shows "lockInv (Suc k) s'"
proof -
  let ?n = "nsMutex s"
  let ?p = "\<lparr>volume = vol, path = pth\<rparr>"
  note d = lockInvD[OF inv]
  from step_LockEnter[OF st] have ns: "nsMutex s' = snd (lockEnter ?n vol pth)"
    and bl: "blocked s' = (?p, fst (lockEnter ?n vol pth)) # blocked s" by auto
  show ?thesis
  proof (cases "lockMap ?n ?p")
    case None
    let ?a = "nextObj ?n"
    note e = lockEnter_new[OF None]
    have lm: "lockMap (nsMutex s') = (lockMap ?n)(?p \<mapsto> ?a)" by (simp add: ns e)
    have ob: "objs (nsMutex s') = (objs ?n)(?a := \<lparr>ref = 1\<rparr>)" by (simp add: ns e)
    have nx: "nextObj (nsMutex s') = Suc ?a" by (simp add: ns e)
    have bl': "blocked s' = (?p, ?a) # blocked s" by (simp add: bl e)
    have old: "\<And>p a. lockMap (nsMutex s') p = Some a \<Longrightarrow> p \<noteq> ?p \<Longrightarrow>
        lockMap ?n p = Some a \<and> a \<noteq> ?a"
    proof -
      fix p a assume "lockMap (nsMutex s') p = Some a" "p \<noteq> ?p"
      then have "lockMap ?n p = Some a" by (simp add: lm)
      moreover from this have "a < ?a" by (rule d(1))
      ultimately show "lockMap ?n p = Some a \<and> a \<noteq> ?a" by simp
    qed
    have new: "\<And>a. lockMap (nsMutex s') ?p = Some a \<Longrightarrow> a = ?a" by (simp add: lm)
    show ?thesis
    proof (rule lockInvI)
      fix p a assume pa: "lockMap (nsMutex s') p = Some a"
      show "a < nextObj (nsMutex s')"
      proof (cases "p = ?p")
        case True with pa new show ?thesis by (simp add: nx)
      next
        case False from old[OF pa False] d(1)[of p a] show ?thesis by (simp add: nx)
      qed
      show "0 < unat (ref (objs (nsMutex s') a))"
      proof (cases "p = ?p")
        case True with pa new show ?thesis by (simp add: ob)
      next
        case False from old[OF pa False] d(2)[of p a] show ?thesis by (simp add: ob)
      qed
      show "unat (ref (objs (nsMutex s') a)) \<le> Suc k"
      proof (cases "p = ?p")
        case True with pa new show ?thesis by (simp add: ob)
      next
        case False from old[OF pa False] d(3)[of p a] show ?thesis by (simp add: ob)
      qed
    next
      fix p a q assume pa: "lockMap (nsMutex s') p = Some a" and qa: "lockMap (nsMutex s') q = Some a"
      show "q = p"
      proof (cases "p = ?p")
        case True
        with pa new have a: "a = ?a" by simp
        show ?thesis
        proof (cases "q = ?p")
          case True with \<open>p = ?p\<close> show ?thesis by simp
        next
          case False from old[OF qa False] a show ?thesis by simp
        qed
      next
        case False
        note o = old[OF pa False]
        show ?thesis
        proof (cases "q = ?p")
          case True with qa new o show ?thesis by simp
        next
          case qf: False
          from old[OF qa qf] o d(4)[of p a q] show ?thesis by simp
        qed
      qed
    next
      fix p a assume "(p, a) \<in> set (blocked s')"
      then have c: "(p = ?p \<and> a = ?a) \<or> (p, a) \<in> set (blocked s)" by (auto simp: bl')
      then show "a < nextObj (nsMutex s')"
      proof
        assume "p = ?p \<and> a = ?a" then show ?thesis by (simp add: nx)
      next
        assume "(p, a) \<in> set (blocked s)"
        from d(5)[OF this] show ?thesis by (simp add: nx)
      qed
    next
      fix p a q assume "(p, a) \<in> set (blocked s')" and qa: "lockMap (nsMutex s') q = Some a"
      then have c: "(p = ?p \<and> a = ?a) \<or> (p, a) \<in> set (blocked s)" by (auto simp: bl')
      then show "q = p"
      proof
        assume pa: "p = ?p \<and> a = ?a"
        show ?thesis
        proof (cases "q = ?p")
          case True with pa show ?thesis by simp
        next
          case False from old[OF qa False] pa show ?thesis by simp
        qed
      next
        assume b: "(p, a) \<in> set (blocked s)"
        show ?thesis
        proof (cases "q = ?p")
          case True
          with qa new have "a = ?a" by simp
          with d(5)[OF b] show ?thesis by simp
        next
          case False
          from old[OF qa False] d(6)[OF b, of q] show ?thesis by simp
        qed
      qed
    qed
  next
    case (Some a0)
    note e = lockEnter_found[OF Some]
    have lm: "lockMap (nsMutex s') = lockMap ?n" by (simp add: ns e)
    have ob: "objs (nsMutex s') = (objs ?n)(a0 := \<lparr>ref = ref (objs ?n a0) + 1\<rparr>)"
      by (simp add: ns e)
    have nx: "nextObj (nsMutex s') = nextObj ?n" by (simp add: ns e)
    have bl': "blocked s' = (?p, a0) # blocked s" by (simp add: bl e)
    have inc: "unat (ref (objs ?n a0) + 1) = Suc (unat (ref (objs ?n a0)))"
      using d(3)[OF Some] k by (rule unat_inc64)
    show ?thesis
    proof (rule lockInvI)
      fix p a assume pa: "lockMap (nsMutex s') p = Some a"
      then have pa0: "lockMap ?n p = Some a" by (simp add: lm)
      show "a < nextObj (nsMutex s')" using d(1)[OF pa0] by (simp add: nx)
      show "0 < unat (ref (objs (nsMutex s') a))"
        using d(2)[OF pa0] inc by (simp add: ob)
      show "unat (ref (objs (nsMutex s') a)) \<le> Suc k"
        using d(3)[OF pa0] d(3)[OF Some] inc by (simp add: ob)
    next
      fix p a q assume "lockMap (nsMutex s') p = Some a" "lockMap (nsMutex s') q = Some a"
      then show "q = p" using d(4)[of p a q] by (simp add: lm)
    next
      fix p a assume "(p, a) \<in> set (blocked s')"
      then have c: "(p = ?p \<and> a = a0) \<or> (p, a) \<in> set (blocked s)" by (auto simp: bl')
      then show "a < nextObj (nsMutex s')"
        using d(1)[OF Some] d(5)[of p a] by (auto simp: nx)
    next
      fix p a q assume "(p, a) \<in> set (blocked s')" and qa: "lockMap (nsMutex s') q = Some a"
      then have c: "(p = ?p \<and> a = a0) \<or> (p, a) \<in> set (blocked s)" by (auto simp: bl')
      from qa have qa0: "lockMap ?n q = Some a" by (simp add: lm)
      from c show "q = p"
      proof
        assume "p = ?p \<and> a = a0"
        with d(4)[OF Some, of q] qa0 show ?thesis by simp
      next
        assume "(p, a) \<in> set (blocked s)"
        from d(6)[OF this qa0] show ?thesis .
      qed
    qed
  qed
qed

lemma lockInv_shrink:
  assumes inv: "lockInv k s"
    and sub: "\<And>p a. lockMap (nsMutex s') p = Some a \<Longrightarrow> lockMap (nsMutex s) p = Some a"
    and nx: "nextObj (nsMutex s') = nextObj (nsMutex s)"
    and bl: "set (blocked s') \<subseteq> set (blocked s)"
    and rf: "\<And>p a. lockMap (nsMutex s') p = Some a \<Longrightarrow>
               0 < unat (ref (objs (nsMutex s') a)) \<and> unat (ref (objs (nsMutex s') a)) \<le> k'"
  shows "lockInv k' s'"
proof (rule lockInvI)
  note d = lockInvD[OF inv]
  fix p a assume pa: "lockMap (nsMutex s') p = Some a"
  show "a < nextObj (nsMutex s')" using d(1)[OF sub[OF pa]] by (simp add: nx)
  show "0 < unat (ref (objs (nsMutex s') a))" using rf[OF pa] by simp
  show "unat (ref (objs (nsMutex s') a)) \<le> k'" using rf[OF pa] by simp
next
  note d = lockInvD[OF inv]
  fix p a q assume "lockMap (nsMutex s') p = Some a" "lockMap (nsMutex s') q = Some a"
  then show "q = p" using d(4)[of p a q] sub by blast
next
  note d = lockInvD[OF inv]
  fix p a assume "(p, a) \<in> set (blocked s')"
  then have "(p, a) \<in> set (blocked s)" using bl by blast
  then show "a < nextObj (nsMutex s')" using d(5) by (simp add: nx)
next
  note d = lockInvD[OF inv]
  fix p a q assume "(p, a) \<in> set (blocked s')" and qa: "lockMap (nsMutex s') q = Some a"
  then have "(p, a) \<in> set (blocked s)" using bl by blast
  from d(6)[OF this sub[OF qa]] show "q = p" .
qed

lemma lockFailed_sel:
  "objs (lockFailed n vol pth a) = (objs n)(a := \<lparr>ref = ref (objs n a) - 1\<rparr>)"
  "nextObj (lockFailed n vol pth a) = nextObj n"
  "logged (lockFailed n vol pth a) = logged n"
  "lockMap (lockFailed n vol pth a) =
     (if ref (objs n a) - 1 = 0 then (lockMap n)(\<lparr>volume = vol, path = pth\<rparr> := None)
      else lockMap n)"
  by (simp_all add: lockFailed_def Let_def)

lemma lockInv_LockFailed:
  assumes inv: "lockInv k s"
      and st: "step (LockFailed vol pth a) s = Some s'"
  shows "lockInv k s'"
proof -
  let ?n = "nsMutex s"
  let ?p = "\<lparr>volume = vol, path = pth\<rparr>"
  note d = lockInvD[OF inv]
  from st have mem: "(?p, a) \<in> set (blocked s)"
    and ns: "nsMutex s' = lockFailed ?n vol pth a"
    and bl: "blocked s' = remove1 (?p, a) (blocked s)"
    by (auto split: if_splits)
  show ?thesis
  proof (rule lockInv_shrink[OF inv])
    fix p b assume "lockMap (nsMutex s') p = Some b"
    then show "lockMap ?n p = Some b"
      by (simp add: ns lockFailed_sel split: if_splits)
  next
    show "nextObj (nsMutex s') = nextObj ?n" by (simp add: ns lockFailed_sel)
  next
    show "set (blocked s') \<subseteq> set (blocked s)" unfolding bl by (rule set_remove1_subset)
  next
    fix p b assume pb: "lockMap (nsMutex s') p = Some b"
    then have pb0: "lockMap ?n p = Some b"
      by (simp add: ns lockFailed_sel split: if_splits)
    show "0 < unat (ref (objs (nsMutex s') b)) \<and> unat (ref (objs (nsMutex s') b)) \<le> k"
    proof (cases "b = a")
      case False
      then show ?thesis using d(2)[OF pb0] d(3)[OF pb0] by (simp add: ns lockFailed_sel)
    next
      case True
      with d(6)[OF mem, of p] pb0 have p: "p = ?p" by simp
      have nz: "ref (objs ?n a) - 1 \<noteq> 0"
        using pb p by (auto simp: ns lockFailed_sel split: if_splits)
      have old: "0 < unat (ref (objs ?n a))" "unat (ref (objs ?n a)) \<le> k"
        using d(2)[OF pb0] d(3)[OF pb0] True by simp_all
      have dec: "unat (ref (objs ?n a) - 1) = unat (ref (objs ?n a)) - 1"
        using old(1) by (rule unat_dec64)
      have "0 < unat (ref (objs ?n a) - 1)" using nz by (simp add: unat_gt_0)
      then show ?thesis using True dec old by (simp add: ns lockFailed_sel)
    qed
  qed
qed

lemma lockInv_LockAcquired:
  assumes inv: "lockInv k s"
      and st: "step (LockAcquired vol pth a) s = Some s'"
  shows "lockInv k s'"
proof -
  from st have ns: "nsMutex s' = nsMutex s"
    and bl: "blocked s' = remove1 (\<lparr>volume = vol, path = pth\<rparr>, a) (blocked s)"
    by (auto split: if_splits)
  show ?thesis
  proof (rule lockInv_shrink[OF inv])
    show "set (blocked s') \<subseteq> set (blocked s)" unfolding bl by (rule set_remove1_subset)
  next
    fix p b assume "lockMap (nsMutex s') p = Some b"
    then show "0 < unat (ref (objs (nsMutex s') b)) \<and> unat (ref (objs (nsMutex s') b)) \<le> k"
      using lockInvD(2,3)[OF inv, of p b] by (simp add: ns)
  qed (simp_all add: ns)
qed

lemma unlock_sel:
  "nextObj (unlock n vol pth opsID rl) = nextObj n"
  "lockMap (unlock n vol pth opsID rl) =
     (case lockMap n \<lparr>volume = vol, path = pth\<rparr> of
        None \<Rightarrow> lockMap n
      | Some a \<Rightarrow> if ref (objs n a) = 0 \<or> ref (objs n a) - 1 = 0
                  then (lockMap n)(\<lparr>volume = vol, path = pth\<rparr> := None) else lockMap n)"
  "objs (unlock n vol pth opsID rl) =
     (case lockMap n \<lparr>volume = vol, path = pth\<rparr> of
        None \<Rightarrow> objs n
      | Some a \<Rightarrow> if ref (objs n a) = 0 then objs n
                  else (objs n)(a := \<lparr>ref = ref (objs n a) - 1\<rparr>))"
  "logged (unlock n vol pth opsID rl) =
     (case lockMap n \<lparr>volume = vol, path = pth\<rparr> of
        None \<Rightarrow> logged n
      | Some a \<Rightarrow> if ref (objs n a) = 0
                  then logged n @ [''Namespace reference count cannot be 0'']
                  else logged n)"
  by (auto simp: unlock_def Let_def split: option.splits)

lemma lockInv_Unlock:
  assumes inv: "lockInv k s"
      and st: "step (Unlock vol pth opsID rl) s = Some s'"
  shows "lockInv k s'"
proof -
  let ?n = "nsMutex s"
  let ?p = "\<lparr>volume = vol, path = pth\<rparr>"
  note d = lockInvD[OF inv]
  from st have ns: "nsMutex s' = unlock ?n vol pth opsID rl" and bl: "blocked s' = blocked s"
    by auto
  show ?thesis
  proof (rule lockInv_shrink[OF inv])
    fix p b assume "lockMap (nsMutex s') p = Some b"
    then show "lockMap ?n p = Some b"
      by (simp add: ns unlock_sel split: option.splits if_splits)
  next
    show "nextObj (nsMutex s') = nextObj ?n" by (simp add: ns unlock_sel)
  next
    show "set (blocked s') \<subseteq> set (blocked s)" by (simp add: bl)
  next
    fix p b assume pb: "lockMap (nsMutex s') p = Some b"
    then have pb0: "lockMap ?n p = Some b"
      by (simp add: ns unlock_sel split: option.splits if_splits)
    show "0 < unat (ref (objs (nsMutex s') b)) \<and> unat (ref (objs (nsMutex s') b)) \<le> k"
    proof (cases "lockMap ?n ?p")
      case None
      then show ?thesis using d(2)[OF pb0] d(3)[OF pb0] by (simp add: ns unlock_sel)
    next
      case (Some a)
      have rnz: "ref (objs ?n a) \<noteq> 0" using d(2)[OF Some] by (simp add: unat_gt_0)
      show ?thesis
      proof (cases "b = a")
        case False
        then show ?thesis using d(2)[OF pb0] d(3)[OF pb0] Some rnz by (simp add: ns unlock_sel)
      next
        case True
        with d(4)[OF Some, of p] pb0 have p: "p = ?p" by simp
        have nz: "ref (objs ?n a) - 1 \<noteq> 0"
          using pb p Some rnz by (auto simp: ns unlock_sel split: if_splits)
        have old: "0 < unat (ref (objs ?n a))" "unat (ref (objs ?n a)) \<le> k"
          using d(2)[OF Some] d(3)[OF Some] by simp_all
        have dec: "unat (ref (objs ?n a) - 1) = unat (ref (objs ?n a)) - 1"
          using old(1) by (rule unat_dec64)
        have "0 < unat (ref (objs ?n a) - 1)" using nz by (simp add: unat_gt_0)
        then show ?thesis using True dec old Some rnz by (simp add: ns unlock_sel)
      qed
    qed
  qed
qed

lemma ForceUnlock_sel:
  "nextObj (ForceUnlock n vol pth) = nextObj n"
  "lockMap (ForceUnlock n vol pth) = (lockMap n)(\<lparr>volume = vol, path = pth\<rparr> := None)"
  "objs (ForceUnlock n vol pth) = objs n"
  "logged (ForceUnlock n vol pth) = logged n"
  by (auto simp: ForceUnlock_def Let_def split: option.splits)

lemma lockInv_ForceUnlock:
  assumes inv: "lockInv k s"
      and st: "step (ForceUnlockEv vol pth) s = Some s'"
  shows "lockInv k s'"
proof -
  from st have ns: "nsMutex s' = ForceUnlock (nsMutex s) vol pth" and bl: "blocked s' = blocked s"
    by auto
  show ?thesis
  proof (rule lockInv_shrink[OF inv])
    fix p b assume "lockMap (nsMutex s') p = Some b"
    then show "lockMap (nsMutex s) p = Some b"
      by (simp add: ns ForceUnlock_sel split: if_splits)
  next
    fix p b assume "lockMap (nsMutex s') p = Some b"
    then have "lockMap (nsMutex s) p = Some b"
      by (simp add: ns ForceUnlock_sel split: if_splits)
    then show "0 < unat (ref (objs (nsMutex s') b)) \<and> unat (ref (objs (nsMutex s') b)) \<le> k"
      using lockInvD(2,3)[OF inv, of p b] by (simp add: ns ForceUnlock_sel)
  qed (simp_all add: ns bl ForceUnlock_sel)
qed

lemma lockInv_step:
  assumes "lockInv k s" "Suc k < 2 ^ 64" "step e s = Some s'"
  shows "lockInv (Suc k) s'"
proof (cases e)
  case (LockEnter vol pth)
  with assms show ?thesis using lockInv_LockEnter by blast
next
  case (LockFailed vol pth a)
  with assms lockInv_LockFailed[of k s vol pth a s'] show ?thesis
    using lockInv_mono[of k s' "Suc k"] by simp
next
  case (LockAcquired vol pth a)
  with assms lockInv_LockAcquired[of k s vol pth a s'] show ?thesis
    using lockInv_mono[of k s' "Suc k"] by simp
next
  case (Unlock vol pth opsID rl)
  with assms lockInv_Unlock[of k s vol pth opsID rl s'] show ?thesis
    using lockInv_mono[of k s' "Suc k"] by simp
next
  case (ForceUnlockEv vol pth)
  with assms lockInv_ForceUnlock[of k s vol pth s'] show ?thesis
    using lockInv_mono[of k s' "Suc k"] by simp
qed

lemma lockInv_run:
  assumes "lockInv k s" "k + length es < 2 ^ 64" "run es s = Some s'"
  shows "lockInv (k + length es) s'"
  using assms
proof (induction es arbitrary: k s)
  case Nil
  then show ?case by simp
next
  case (Cons e es)
  from Cons.prems(3) obtain s1 where s1: "step e s = Some s1" and r: "run es s1 = Some s'"
    by (auto split: option.splits)
  have "Suc k < 2 ^ 64" using Cons.prems(2) by simp
  from lockInv_step[OF Cons.prems(1) this s1] have "lockInv (Suc k) s1" .
  from Cons.IH[OF this _ r] Cons.prems(2) show ?case by simp
qed

subsection \<open>Entries and reference counts\<close>

lemma refCount_pos_iff:
  assumes "lockInv k s"
  shows "(lockMap (nsMutex s) param \<noteq> None) = (0 < refCount (nsMutex s) param)"
proof (cases "lockMap (nsMutex s) param")
  case None
  then show ?thesis by (simp add: refCount_def)
next
  case (Some a)
  with lockInvD(2)[OF assms Some] show ?thesis by (simp add: refCount_def)
qed

lemma exRun_result: "run exRun initSystem = Some exSystem"
  by (simp add: exRun_def initSystem_def newNSLock_def lockEnter_def exSystem_def Let_def)

text \<open>
  What holds in every state that a run of fewer than \<open>2^64\<close> critical sections
  reaches from the empty map: a key has an entry in the map if and only if its
  reference count is greater than zero; \<open>lock\<close> on a key without an entry creates
  the entry with the count 1; \<open>unlock\<close> on a key with an entry decrements its count
  and removes the entry exactly when the count was 1; the timeout path of a blocked
  \<open>lock\<close> whose pointer is still the key's entry decrements the count and removes
  the entry exactly when the count was 1; and \<open>ForceUnlock\<close> removes the entry
  whatever its count.  The timeout path of a \<open>lock\<close> whose entry has left the map
  meanwhile is not covered here: the run with a forced unlock, below, is about it.
\<close>

theorem lockMap_entry_iff_refCount:
  assumes "run es initSystem = Some s" and "length es < 2 ^ 64"
  shows "((lockMap (nsMutex s) param \<noteq> None) = (0 < refCount (nsMutex s) param)) \<and>
         (lockMap (nsMutex s) \<lparr>volume = vol1, path = pth1\<rparr> = None \<longrightarrow>
            lockMap (snd (lockEnter (nsMutex s) vol1 pth1)) \<lparr>volume = vol1, path = pth1\<rparr>
              = Some (fst (lockEnter (nsMutex s) vol1 pth1)) \<and>
            refCount (snd (lockEnter (nsMutex s) vol1 pth1)) \<lparr>volume = vol1, path = pth1\<rparr> = 1) \<and>
         (lockMap (nsMutex s) \<lparr>volume = vol, path = pth\<rparr> \<noteq> None \<longrightarrow>
            refCount (unlock (nsMutex s) vol pth opsID readLock) \<lparr>volume = vol, path = pth\<rparr>
              = refCount (nsMutex s) \<lparr>volume = vol, path = pth\<rparr> - 1 \<and>
            (lockMap (unlock (nsMutex s) vol pth opsID readLock) \<lparr>volume = vol, path = pth\<rparr> = None)
              = (refCount (nsMutex s) \<lparr>volume = vol, path = pth\<rparr> = 1)) \<and>
         ((\<lparr>volume = vol, path = pth\<rparr>, nsLk) \<in> set (blocked s) \<and>
          lockMap (nsMutex s) \<lparr>volume = vol, path = pth\<rparr> = Some nsLk \<longrightarrow>
            refCount (lockFailed (nsMutex s) vol pth nsLk) \<lparr>volume = vol, path = pth\<rparr>
              = refCount (nsMutex s) \<lparr>volume = vol, path = pth\<rparr> - 1 \<and>
            (lockMap (lockFailed (nsMutex s) vol pth nsLk) \<lparr>volume = vol, path = pth\<rparr> = None)
              = (refCount (nsMutex s) \<lparr>volume = vol, path = pth\<rparr> = 1)) \<and>
         lockMap (ForceUnlock (nsMutex s) vol pth) \<lparr>volume = vol, path = pth\<rparr> = None"
proof -
  let ?n = "nsMutex s"
  let ?p = "\<lparr>volume = vol, path = pth\<rparr>"
  have inv: "lockInv (length es) s"
    using lockInv_run[OF lockInv_init _ assms(1)] assms(2) by simp
  note d = lockInvD[OF inv]
  have c1: "(lockMap ?n param \<noteq> None) = (0 < refCount ?n param)"
    using inv by (rule refCount_pos_iff)
  have c2: "lockMap ?n \<lparr>volume = vol1, path = pth1\<rparr> = None \<longrightarrow>
            lockMap (snd (lockEnter ?n vol1 pth1)) \<lparr>volume = vol1, path = pth1\<rparr>
              = Some (fst (lockEnter ?n vol1 pth1)) \<and>
            refCount (snd (lockEnter ?n vol1 pth1)) \<lparr>volume = vol1, path = pth1\<rparr> = 1"
    by (simp add: lockEnter_new refCount_def)
  have dec: "\<And>a. lockMap ?n ?p = Some a \<Longrightarrow>
      ref (objs ?n a) \<noteq> 0 \<and> unat (ref (objs ?n a) - 1) = unat (ref (objs ?n a)) - 1 \<and>
      (ref (objs ?n a) - 1 = 0) = (unat (ref (objs ?n a)) = 1)"
  proof -
    fix a assume a: "lockMap ?n ?p = Some a"
    from d(2)[OF a] have pos: "0 < unat (ref (objs ?n a))" .
    then have nz: "ref (objs ?n a) \<noteq> 0" by (simp add: unat_gt_0)
    have dd: "unat (ref (objs ?n a) - 1) = unat (ref (objs ?n a)) - 1"
      using pos by (rule unat_dec64)
    have "(ref (objs ?n a) - 1 = 0) = (unat (ref (objs ?n a) - 1) = 0)"
      by (simp add: unat_eq_0)
    also have "\<dots> = (unat (ref (objs ?n a)) = 1)" using dd pos by auto
    finally show "ref (objs ?n a) \<noteq> 0 \<and> unat (ref (objs ?n a) - 1) = unat (ref (objs ?n a)) - 1 \<and>
      (ref (objs ?n a) - 1 = 0) = (unat (ref (objs ?n a)) = 1)" using nz dd by simp
  qed
  have c3: "lockMap ?n ?p \<noteq> None \<longrightarrow>
            refCount (unlock ?n vol pth opsID readLock) ?p = refCount ?n ?p - 1 \<and>
            (lockMap (unlock ?n vol pth opsID readLock) ?p = None) = (refCount ?n ?p = 1)"
  proof
    assume "lockMap ?n ?p \<noteq> None"
    then obtain a where a: "lockMap ?n ?p = Some a" by auto
    from dec[OF a] a show "refCount (unlock ?n vol pth opsID readLock) ?p = refCount ?n ?p - 1 \<and>
            (lockMap (unlock ?n vol pth opsID readLock) ?p = None) = (refCount ?n ?p = 1)"
      by (simp add: refCount_def unlock_sel)
  qed
  have c4: "(?p, nsLk) \<in> set (blocked s) \<and> lockMap ?n ?p = Some nsLk \<longrightarrow>
            refCount (lockFailed ?n vol pth nsLk) ?p = refCount ?n ?p - 1 \<and>
            (lockMap (lockFailed ?n vol pth nsLk) ?p = None) = (refCount ?n ?p = 1)"
  proof
    assume "(?p, nsLk) \<in> set (blocked s) \<and> lockMap ?n ?p = Some nsLk"
    then have a: "lockMap ?n ?p = Some nsLk" by simp
    from dec[OF a] a show "refCount (lockFailed ?n vol pth nsLk) ?p = refCount ?n ?p - 1 \<and>
            (lockMap (lockFailed ?n vol pth nsLk) ?p = None) = (refCount ?n ?p = 1)"
      by (simp add: refCount_def lockFailed_sel)
  qed
  have c5: "lockMap (ForceUnlock ?n vol pth) ?p = None"
    by (simp add: ForceUnlock_sel)
  from c1 c2 c3 c4 c5 show ?thesis by blast
qed

text \<open>The concrete run satisfies the hypotheses: the object's entry has the count 2
  and one goroutine is blocked on it.\<close>

theorem lockMap_entry_iff_refCount_witness:
  "run exRun initSystem = Some exSystem \<and> length exRun < 2 ^ 64 \<and>
   lockMap (nsMutex exSystem) \<lparr>volume = ''bucket'', path = ''object''\<rparr> = Some 0 \<and>
   refCount (nsMutex exSystem) \<lparr>volume = ''bucket'', path = ''object''\<rparr> = 2 \<and>
   lockMap (nsMutex exSystem) \<lparr>volume = ''bucket'', path = ''other''\<rparr> = None \<and>
   refCount (snd (lockEnter (nsMutex exSystem) ''bucket'' ''other''))
     \<lparr>volume = ''bucket'', path = ''other''\<rparr> = 1 \<and>
   refCount (unlock (nsMutex exSystem) ''bucket'' ''object'' ''ops'' False)
     \<lparr>volume = ''bucket'', path = ''object''\<rparr> = 1 \<and>
   lockMap (unlock (nsMutex exSystem) ''bucket'' ''object'' ''ops'' False)
     \<lparr>volume = ''bucket'', path = ''object''\<rparr> \<noteq> None \<and>
   (\<lparr>volume = ''bucket'', path = ''object''\<rparr>, 0) \<in> set (blocked exSystem) \<and>
   refCount (lockFailed (nsMutex exSystem) ''bucket'' ''object'' 0)
     \<lparr>volume = ''bucket'', path = ''object''\<rparr> = 1 \<and>
   lockMap (ForceUnlock (nsMutex exSystem) ''bucket'' ''object'')
     \<lparr>volume = ''bucket'', path = ''object''\<rparr> = None"
proof -
  let ?p = "\<lparr>volume = ''bucket'', path = ''object''\<rparr>"
  let ?q = "\<lparr>volume = ''bucket'', path = ''other''\<rparr>"
  have r: "run exRun initSystem = Some exSystem" by (rule exRun_result)
  have l: "length exRun < 2 ^ 64" by (simp add: exRun_def)
  have e: "lockMap (nsMutex exSystem) ?p = Some 0" by (simp add: exSystem_def)
  have c: "refCount (nsMutex exSystem) ?p = 2" by (simp add: exSystem_def refCount_def)
  have o: "lockMap (nsMutex exSystem) ?q = None" by (simp add: exSystem_def)
  have b: "(?p, 0) \<in> set (blocked exSystem)" by (simp add: exSystem_def)
  from lockMap_entry_iff_refCount[OF r l, of ?p "''bucket''" "''other''" "''bucket''" "''object''"
      "''ops''" False 0] r l e c o b
  show ?thesis by simp
qed

lemma exStaleRun_result: "run exStaleRun initSystem = Some exStaleSystem"
  by (simp add: exStaleRun_def initSystem_def newNSLock_def lockEnter_def ForceUnlock_def
      exStaleSystem_def Let_def fun_upd_twist)

text \<open>
  Claim C3 fails in a state that a run reaches.  After \<open>exStaleRun\<close> the entry of the
  object is the lock object 1 with the reference count 2 (B holds it, C waits for it),
  and A is still blocked with the pointer 0, whose count is 1.  When the acquire of A
  times out, \<open>lock\<close> decrements the count of the lock object 0 to zero and deletes
  the key from the map: the entry is removed although its own count is 2 and stays 2.
  The next \<open>lock\<close> of the object then allocates a third lock object, while B holds
  the second.
\<close>

theorem lockFailed_removes_referenced_entry:
  "run exStaleRun initSystem = Some exStaleSystem \<and>
   (\<lparr>volume = ''bucket'', path = ''object''\<rparr>, 0) \<in> set (blocked exStaleSystem) \<and>
   lockMap (nsMutex exStaleSystem) \<lparr>volume = ''bucket'', path = ''object''\<rparr> = Some 1 \<and>
   refCount (nsMutex exStaleSystem) \<lparr>volume = ''bucket'', path = ''object''\<rparr> = 2 \<and>
   ref (objs (nsMutex exStaleSystem) 0) = 1 \<and>
   lockMap (lockFailed (nsMutex exStaleSystem) ''bucket'' ''object'' 0)
     \<lparr>volume = ''bucket'', path = ''object''\<rparr> = None \<and>
   ref (objs (lockFailed (nsMutex exStaleSystem) ''bucket'' ''object'' 0) 0) = 0 \<and>
   ref (objs (lockFailed (nsMutex exStaleSystem) ''bucket'' ''object'' 0) 1) = 2 \<and>
   (\<lparr>volume = ''bucket'', path = ''object''\<rparr>, 1) \<in>
     set (blocked (the (step (LockFailed ''bucket'' ''object'' 0) exStaleSystem))) \<and>
   fst (lockEnter (lockFailed (nsMutex exStaleSystem) ''bucket'' ''object'' 0)
          ''bucket'' ''object'') = 2"
proof -
  let ?p = "\<lparr>volume = ''bucket'', path = ''object''\<rparr>"
  let ?n = "lockFailed (nsMutex exStaleSystem) ''bucket'' ''object'' 0"
  have r: "run exStaleRun initSystem = Some exStaleSystem" by (rule exStaleRun_result)
  have b: "(?p, 0) \<in> set (blocked exStaleSystem)" by (simp add: exStaleSystem_def)
  have e: "lockMap (nsMutex exStaleSystem) ?p = Some 1" by (simp add: exStaleSystem_def)
  have c: "refCount (nsMutex exStaleSystem) ?p = 2" by (simp add: exStaleSystem_def refCount_def)
  have c0: "ref (objs (nsMutex exStaleSystem) 0) = 1" by (simp add: exStaleSystem_def)
  have m: "lockMap ?n ?p = None" by (simp add: lockFailed_def exStaleSystem_def Let_def)
  have o0: "ref (objs ?n 0) = 0" by (simp add: lockFailed_def exStaleSystem_def Let_def)
  have o1: "ref (objs ?n 1) = 2" by (simp add: lockFailed_def exStaleSystem_def Let_def)
  have w: "(?p, 1) \<in> set (blocked (the (step (LockFailed ''bucket'' ''object'' 0) exStaleSystem)))"
    by (simp add: exStaleSystem_def)
  have nx: "nextObj ?n = 2" by (simp add: lockFailed_def exStaleSystem_def Let_def)
  have l: "fst (lockEnter ?n ''bucket'' ''object'') = 2"
    by (simp add: lockEnter_def m nx Let_def)
  from r b e c c0 m o0 o1 w l show ?thesis by simp
qed

text \<open>
  Claim C8, as amended.  \<open>unlock\<close> (for a write lock or a read lock) on a key without
  an entry changes nothing and logs nothing; on a key whose entry has the reference
  count zero it logs the condition, leaves the count at zero and removes the entry.
  No call of \<open>unlock\<close> makes a counter wrap around below zero: no counter grows,
  and the key's reference count after the call is the count before minus one,
  stopping at zero.
\<close>

theorem unlock_saturates_at_zero:
  "(lockMap n \<lparr>volume = vol, path = pth\<rparr> = None \<longrightarrow> unlock n vol pth opsID readLock = n) \<and>
   (lockMap n \<lparr>volume = vol, path = pth\<rparr> = Some nsLk \<and> ref (objs n nsLk) = 0 \<longrightarrow>
      unlock n vol pth opsID readLock =
        n\<lparr>logged := logged n @ [''Namespace reference count cannot be 0''],
          lockMap := (lockMap n)(\<lparr>volume = vol, path = pth\<rparr> := None)\<rparr>) \<and>
   (\<forall>a. unat (ref (objs (unlock n vol pth opsID readLock) a)) \<le> unat (ref (objs n a))) \<and>
   refCount (unlock n vol pth opsID readLock) \<lparr>volume = vol, path = pth\<rparr> =
     refCount n \<lparr>volume = vol, path = pth\<rparr> - 1"
proof -
  let ?p = "\<lparr>volume = vol, path = pth\<rparr>"
  have c1: "lockMap n ?p = None \<longrightarrow> unlock n vol pth opsID readLock = n"
    by (simp add: unlock_def)
  have c2: "lockMap n ?p = Some nsLk \<and> ref (objs n nsLk) = 0 \<longrightarrow>
      unlock n vol pth opsID readLock =
        n\<lparr>logged := logged n @ [''Namespace reference count cannot be 0''],
          lockMap := (lockMap n)(?p := None)\<rparr>"
    by (simp add: unlock_def Let_def)
  have dec: "\<And>r :: 64 word. r \<noteq> 0 \<Longrightarrow> unat (r - 1) = unat r - 1"
    by (simp add: unat_minus_one)
  have c3: "\<forall>a. unat (ref (objs (unlock n vol pth opsID readLock) a)) \<le> unat (ref (objs n a))"
    by (auto simp: unlock_sel dec split: option.splits)
  have c4: "refCount (unlock n vol pth opsID readLock) ?p = refCount n ?p - 1"
  proof (cases "lockMap n ?p")
    case None
    then show ?thesis by (simp add: refCount_def unlock_sel)
  next
    case (Some a)
    show ?thesis
    proof (cases "ref (objs n a) = 0")
      case True
      with Some show ?thesis by (simp add: refCount_def unlock_sel)
    next
      case False
      have "(ref (objs n a) - 1 = 0) = (unat (ref (objs n a) - 1) = 0)"
        by (simp add: unat_eq_0)
      with Some False dec[OF False] show ?thesis
        by (auto simp: refCount_def unlock_sel)
    qed
  qed
  from c1 c2 c3 c4 show ?thesis by blast
qed

text \<open>Both cases at concrete maps: the empty map, and a map whose entry has the
  count zero.\<close>

theorem unlock_saturates_at_zero_witness:
  "lockMap newNSLock \<lparr>volume = ''bucket'', path = ''object''\<rparr> = None \<and>
   unlock newNSLock ''bucket'' ''object'' ''ops'' False = newNSLock \<and>
   lockMap exZeroRef \<lparr>volume = ''bucket'', path = ''object''\<rparr> = Some 0 \<and>
   ref (objs exZeroRef 0) = 0 \<and>
   logged (unlock exZeroRef ''bucket'' ''object'' ''ops'' True) =
     [''Namespace reference count cannot be 0''] \<and>
   lockMap (unlock exZeroRef ''bucket'' ''object'' ''ops'' True)
     \<lparr>volume = ''bucket'', path = ''object''\<rparr> = None \<and>
   ref (objs (unlock exZeroRef ''bucket'' ''object'' ''ops'' True) 0) = 0 \<and>
   refCount (unlock exZeroRef ''bucket'' ''object'' ''ops'' True)
     \<lparr>volume = ''bucket'', path = ''object''\<rparr> = 0"
proof -
  let ?p = "\<lparr>volume = ''bucket'', path = ''object''\<rparr>"
  have a: "lockMap newNSLock ?p = None" by (simp add: newNSLock_def)
  have b: "lockMap exZeroRef ?p = Some 0" "ref (objs exZeroRef 0) = 0" "logged exZeroRef = []"
    "refCount exZeroRef ?p = 0"
    by (simp_all add: exZeroRef_def refCount_def)
  note i1 = unlock_saturates_at_zero[where n = newNSLock and vol = "''bucket''" and pth = "''object''"
         and opsID = "''ops''" and readLock = False and nsLk = 0]
  note i2 = unlock_saturates_at_zero[where n = exZeroRef and vol = "''bucket''" and pth = "''object''"
         and opsID = "''ops''" and readLock = True and nsLk = 0]
  have u1: "unlock newNSLock ''bucket'' ''object'' ''ops'' False = newNSLock"
    using i1 a by simp
  have u2: "unlock exZeroRef ''bucket'' ''object'' ''ops'' True =
      exZeroRef\<lparr>logged := logged exZeroRef @ [''Namespace reference count cannot be 0''],
                lockMap := (lockMap exZeroRef)(?p := None)\<rparr>"
    using i2 b(1,2) by blast
  have rc: "refCount (unlock exZeroRef ''bucket'' ''object'' ''ops'' True) ?p = 0"
    using i2 b(4) by simp
  have lg: "logged (unlock exZeroRef ''bucket'' ''object'' ''ops'' True) =
     [''Namespace reference count cannot be 0'']"
    unfolding u2 using b(3) by simp
  have lm: "lockMap (unlock exZeroRef ''bucket'' ''object'' ''ops'' True) ?p = None"
    unfolding u2 by simp
  have rf: "ref (objs (unlock exZeroRef ''bucket'' ''object'' ''ops'' True) 0) = 0"
    unfolding u2 using b(2) by simp
  show ?thesis
    using a u1 b(1,2) lg lm rf rc by (intro conjI)
qed

text \<open>
  Claim C8 as stated fails where it says that the manager logs the condition when no
  entry exists: \<open>unlock\<close> on the empty map logs nothing.
\<close>

theorem unlock_without_entry_logs_nothing:
  "lockMap newNSLock \<lparr>volume = ''bucket'', path = ''object''\<rparr> = None \<and>
   logged newNSLock = [] \<and>
   logged (unlock newNSLock ''bucket'' ''object'' ''ops'' False) = []"
  by (simp add: newNSLock_def unlock_def)

section \<open>Theorems: multipart uploads\<close>

subsection \<open>backgroundAppend\<close>

lemma appendParts_extends:
  assumes "nextPartNumber = int (length (parts file)) + 1"
      and "appendParts faults dir entries fls file nextPartNumber = (fls', file')"
  shows "\<exists>new. parts file' = parts file @ new \<and>
           map PartNumber new =
             map int [Suc (length (parts file))..<Suc (length (parts file) + length new)] \<and>
           (\<forall>p\<in>set new. \<exists>entry\<in>set entries. decodePartFile entry = Inr (PartNumber p, ETag p)) \<and>
           filePath file' = filePath file"
  using assms
proof (induction entries arbitrary: fls "file" nextPartNumber)
  case Nil
  then show ?case by simp
next
  case (Cons entry entries)
  let ?k = "length (parts file)"
  show ?case
  proof (cases "entry = fsMetaJSONFile")
    case True
    with Cons.prems have "appendParts faults dir entries fls file nextPartNumber = (fls', file')"
      by simp
    from Cons.IH[OF Cons.prems(1) this] show ?thesis by auto
  next
    case notmeta: False
    show ?thesis
    proof (cases "decodePartFile entry")
      case (Inl err)
      with notmeta Cons.prems have "file' = file" by simp
      then show ?thesis by simp
    next
      case (Inr r)
      obtain partNumber etag where r: "r = (partNumber, etag)" by (cases r)
      note dec = Inr[unfolded r]
      consider (lt) "partNumber < nextPartNumber" | (gt) "partNumber > nextPartNumber"
        | (eq) "partNumber = nextPartNumber" by linarith
      then show ?thesis
      proof cases
        case lt
        with notmeta dec Cons.prems
        have "appendParts faults dir entries fls file nextPartNumber = (fls', file')" by simp
        from Cons.IH[OF Cons.prems(1) this] show ?thesis by auto
      next
        case gt
        with notmeta dec Cons.prems have "file' = file" by simp
        then show ?thesis by simp
      next
        case eq
        show ?thesis
        proof (cases "mioutil_AppendFile (faults (dir @ [entry])) fls (filePath file) (dir @ [entry])")
          case (Inl err)
          with notmeta dec eq Cons.prems have "file' = file" by (simp add: Let_def)
          then show ?thesis by simp
        next
          case (Inr fls1)
          let ?p = "\<lparr>PartNumber = nextPartNumber, ETag = etag, PartSize = 0\<rparr>"
          let ?file1 = "file\<lparr>parts := parts file @ [?p]\<rparr>"
          from notmeta dec eq Cons.prems Inr
          have run: "appendParts faults dir entries fls1 ?file1 (nextPartNumber + 1) = (fls', file')"
            by (simp add: Let_def)
          have nx: "nextPartNumber + 1 = int (length (parts ?file1)) + 1"
            using Cons.prems(1) by simp
          from Cons.IH[OF nx run] obtain new where
            n1: "parts file' = parts ?file1 @ new"
            and n2: "map PartNumber new =
               map int [Suc (length (parts ?file1))..<Suc (length (parts ?file1) + length new)]"
            and n3: "\<forall>p\<in>set new. \<exists>e\<in>set entries. decodePartFile e = Inr (PartNumber p, ETag p)"
            and n4: "filePath file' = filePath ?file1" by blast
          have a: "parts file' = parts file @ (?p # new)" using n1 by simp
          have b: "map PartNumber (?p # new) =
               map int [Suc ?k..<Suc (?k + length (?p # new))]"
          proof -
            have "[Suc ?k..<Suc (?k + length (?p # new))] =
                  Suc ?k # [Suc (Suc ?k)..<Suc (?k + length (?p # new))]"
              by (rule upt_conv_Cons) simp
            then have "[Suc ?k..<Suc (?k + length (?p # new))] =
                  Suc ?k # [Suc (Suc ?k)..<Suc (Suc ?k + length new)]"
              by simp
            moreover have "nextPartNumber = int (Suc ?k)" using Cons.prems(1) by simp
            ultimately show ?thesis using n2 by simp
          qed
          have c: "\<forall>p\<in>set (?p # new). \<exists>e\<in>set (entry # entries).
                     decodePartFile e = Inr (PartNumber p, ETag p)"
            using n3 dec eq by auto
          have d: "filePath file' = filePath file" using n4 by simp
          from a b c d show ?thesis by blast
        qed
      qed
    qed
  qed
qed

lemma contiguous_extend:
  assumes "contiguous file"
      and "parts file' = parts file @ new"
      and "map PartNumber new =
             map int [Suc (length (parts file))..<Suc (length (parts file) + length new)]"
  shows "contiguous file'"
proof -
  let ?k = "length (parts file)"
  have "[1..<Suc ?k + length new] = [1..<Suc ?k] @ [Suc ?k..<Suc ?k + length new]"
    by (rule upt_add_eq_append) simp
  then show ?thesis
    using assms by (simp add: contiguous_def)
qed

lemma exReadDir: "readDir exFiles exDir = Inr [''fs.json'', ''00002.bb'', ''00001.aa'', ''00003.cc'']"
  by (simp add: readDir_def exFiles_def exDir_def)

lemma exSort: "sort [''fs.json'', ''00002.bb'', ''00001.aa'', ''00003.cc''] =
   [''00001.aa'', ''00002.bb'', ''00003.cc'', ''fs.json'']"
  by (simp add: less_eq_char_def less_char_def)

lemma exDecode:
  "decodePartFile ''00001.aa'' = Inr (1, ''aa'')"
  "decodePartFile ''00002.bb'' = Inr (2, ''bb'')"
  "decodePartFile ''00003.cc'' = Inr (3, ''cc'')"
  by (simp_all add: decodePartFile_def strconv_Atoi_def isDigit_def)

lemma backgroundAppend_other:
  "u \<noteq> uploadID \<Longrightarrow>
   appendFileMap (backgroundAppend h faults uuid fs bucket object uploadID) u = appendFileMap fs u"
  by (simp add: backgroundAppend_def Let_def split_def split: sum.splits)

lemma backgroundAppend_record:
  fixes fs :: FSObjects and uploadID :: string
  defines "old \<equiv> (case appendFileMap fs uploadID of None \<Rightarrow> [] | Some f \<Rightarrow> parts f)"
  shows "\<exists>file' new.
           appendFileMap (backgroundAppend h faults uuid fs bucket object uploadID) uploadID
             = Some file' \<and>
           parts file' = old @ new \<and>
           map PartNumber new = map int [Suc (length old)..<Suc (length old + length new)] \<and>
           (\<forall>p\<in>set new. \<exists>entries.
              readDir (fsFiles fs) (getUploadIDDir h fs bucket object uploadID) = Inr entries \<and>
              (\<exists>entry\<in>set entries. decodePartFile entry = Inr (PartNumber p, ETag p)))"
proof -
  define file0 where "file0 = (case appendFileMap fs uploadID of
               None \<Rightarrow> \<lparr>filePath = fsPath fs @ minioMetaTmpBucket
                                    @ [fsUUID fs, uploadID @ ''.'' @ uuid],
                         parts = []\<rparr>
             | Some f \<Rightarrow> f)"
  have old: "parts file0 = old"
    by (simp add: file0_def old_def split: option.splits)
  let ?dir = "getUploadIDDir h fs bucket object uploadID"
  show ?thesis
  proof (cases "readDir (fsFiles fs) ?dir")
    case (Inl err)
    then have "appendFileMap (backgroundAppend h faults uuid fs bucket object uploadID) uploadID
        = Some file0"
      by (simp add: backgroundAppend_def Let_def file0_def getUploadIDDir_def)
    then show ?thesis using old by (intro exI[of _ file0] exI[of _ "[]"]) simp
  next
    case (Inr entries)
    obtain fls' file' where run:
      "appendParts faults ?dir (sort entries) (fsFiles fs) file0 (int (length (parts file0)) + 1)
         = (fls', file')" by (cases "appendParts faults ?dir (sort entries) (fsFiles fs) file0
                                       (int (length (parts file0)) + 1)")
    have res: "appendFileMap (backgroundAppend h faults uuid fs bucket object uploadID) uploadID
        = Some file'"
      using Inr run by (simp add: backgroundAppend_def Let_def file0_def getUploadIDDir_def)
    from appendParts_extends[OF refl run] obtain new where
      n1: "parts file' = parts file0 @ new"
      and n2: "map PartNumber new =
         map int [Suc (length (parts file0))..<Suc (length (parts file0) + length new)]"
      and n3: "\<forall>p\<in>set new. \<exists>entry\<in>set (sort entries).
                 decodePartFile entry = Inr (PartNumber p, ETag p)" by blast
    from n3 Inr have n3': "\<forall>p\<in>set new. \<exists>es.
              readDir (fsFiles fs) ?dir = Inr es \<and>
              (\<exists>entry\<in>set es. decodePartFile entry = Inr (PartNumber p, ETag p))"
      by auto
    from res n1 n2 n3' old show ?thesis by auto
  qed
qed

lemma backgroundAppend_contiguous_step:
  assumes "\<forall>u f. appendFileMap fs u = Some f \<longrightarrow> contiguous f"
  shows "\<forall>u f. appendFileMap (backgroundAppend h faults uuid fs bucket object uploadID) u = Some f
           \<longrightarrow> contiguous f"
proof (intro allI impI)
  fix u f
  assume uf: "appendFileMap (backgroundAppend h faults uuid fs bucket object uploadID) u = Some f"
  show "contiguous f"
  proof (cases "u = uploadID")
    case False
    with uf assms backgroundAppend_other[OF False] show ?thesis by metis
  next
    case True
    let ?old = "case appendFileMap fs uploadID of None \<Rightarrow> [] | Some f \<Rightarrow> parts f"
    from backgroundAppend_record[of h faults uuid fs bucket object uploadID] uf True
    obtain new where n1: "parts f = ?old @ new"
      and n2: "map PartNumber new = map int [Suc (length ?old)..<Suc (length ?old + length new)]"
      by auto
    show ?thesis
    proof (cases "appendFileMap fs uploadID")
      case None
      with n1 n2 show ?thesis by (simp add: contiguous_def)
    next
      case (Some f0)
      with assms have "contiguous f0" by blast
      from contiguous_extend[OF this, of f new] n1 n2 Some show ?thesis by simp
    qed
  qed
qed

lemma backgroundAppends_contiguous:
  assumes "\<forall>u f. appendFileMap fs u = Some f \<longrightarrow> contiguous f"
  shows "\<forall>u f. appendFileMap (backgroundAppends h runs fs) u = Some f \<longrightarrow> contiguous f"
  using assms
proof (induction runs arbitrary: fs)
  case Nil
  then show ?case by simp
next
  case (Cons r runs)
  let ?fs1 = "fs\<lparr>fsFiles := runChange r (fsFiles fs)\<rparr>"
  have "\<forall>u f. appendFileMap ?fs1 u = Some f \<longrightarrow> contiguous f" using Cons.prems by simp
  then have "\<forall>u f. appendFileMap (backgroundAppend h (runFaults r) (runUUID r) ?fs1
       (runBucket r) (runObject r) (runUploadID r)) u = Some f \<longrightarrow> contiguous f"
    by (rule backgroundAppend_contiguous_step)
  from Cons.IH[OF this] show ?case by simp
qed

text \<open>
  Claim C4.  Starting from an object layer without append files, after every run of
  \<open>backgroundAppend\<close> (with whatever the other operations did to the file system
  between the runs) the part numbers of every append file are \<open>1, 2, ..., k\<close> in
  this order.  One more run leaves the append file of its upload with the parts it
  had, followed by new parts whose numbers continue the sequence; and each new part
  was found in the listing of the upload's directory, under a name that decodes to
  its number and its etag: the record holds no part that is not on disk.
\<close>

theorem backgroundAppend_contiguous:
  assumes "appendFileMap fs0 = (\<lambda>uploadID. None)"
  shows "(\<forall>u f. appendFileMap (backgroundAppends h runs fs0) u = Some f \<longrightarrow> contiguous f) \<and>
         (\<exists>file' new.
            appendFileMap
              (backgroundAppend h faults uuid (backgroundAppends h runs fs0) bucket object uploadID)
              uploadID = Some file' \<and>
            contiguous file' \<and>
            parts file' =
              (case appendFileMap (backgroundAppends h runs fs0) uploadID of
                 None \<Rightarrow> [] | Some f \<Rightarrow> parts f) @ new \<and>
            (\<forall>p\<in>set new. \<exists>entries.
               readDir (fsFiles (backgroundAppends h runs fs0))
                 (getUploadIDDir h (backgroundAppends h runs fs0) bucket object uploadID)
                 = Inr entries \<and>
               (\<exists>entry\<in>set entries. decodePartFile entry = Inr (PartNumber p, ETag p))))"
proof -
  let ?fs = "backgroundAppends h runs fs0"
  have c0: "\<forall>u f. appendFileMap fs0 u = Some f \<longrightarrow> contiguous f" using assms by simp
  have c: "\<forall>u f. appendFileMap ?fs u = Some f \<longrightarrow> contiguous f"
    using c0 by (rule backgroundAppends_contiguous)
  have c': "\<forall>u f. appendFileMap (backgroundAppend h faults uuid ?fs bucket object uploadID) u = Some f
           \<longrightarrow> contiguous f"
    using c by (rule backgroundAppend_contiguous_step)
  from backgroundAppend_record[of h faults uuid ?fs bucket object uploadID] c' c
  show ?thesis by blast
qed

lemma map_of_fsRemoveFile: "map_of (fsRemoveFile fls q) p = (if p = q then None else map_of fls p)"
  by (induction fls) (auto simp: fsRemoveFile_def)

lemma map_of_fsWriteFile:
  "map_of (fsWriteFile fls q sz) p = (if p = q then Some (File sz) else map_of fls p)"
  by (simp add: fsWriteFile_def map_of_fsRemoveFile)

lemma map_of_mkParents_Some: "map_of fls p = Some x \<Longrightarrow> map_of (mkParents fls d) p = Some x"
  by (simp add: mkParents_def map_add_Some_iff)

lemma map_of_mkParents_File:
  "(map_of (mkParents fls d) p = Some (File sz)) = (map_of fls p = Some (File sz))"
proof -
  have "map_of (map (\<lambda>d. (d, Dir)) ds) p \<noteq> Some (File sz)" for ds :: "fspath list"
    by (induction ds) auto
  then show ?thesis
    by (auto simp: mkParents_def map_add_Some_iff)
qed

lemma fsStatFile_Inr: "(fsStatFile fls p = Inr sz) = (map_of fls p = Some (File sz))"
  by (auto simp: fsStatFile_def split: option.splits fnode.splits)

lemma exUploadDir: "getUploadIDDir exHelpers exFS ''bucket'' ''object'' ''id1'' = exDir"
  by (simp add: getUploadIDDir_def exHelpers_def exFS_def minioMetaMultipartBucket_def exDir_def)

lemma exStat:
  "map_of exFiles (exDir @ [''00001.aa'']) = Some (File 5242880)"
  "map_of exFiles (exDir @ [''00002.bb'']) = Some (File 1048576)"
  "map_of exFiles (exDir @ [''00003.cc'']) = Some (File 10)"
  "map_of exFiles (exDir @ [''fs.json'']) = Some (File 20)"
  "map_of exFiles [''export'', ''bucket''] = Some Dir"
  "map_of exFiles [''export'', ''.minio.sys'', ''tmp'', ''fsid'', ''id1.u1''] = None"
  by (simp_all add: exFiles_def exDir_def)

lemma mioutil_AppendFile_ok:
  assumes "map_of fls src = Some (File sz)" "map_of fls dst \<noteq> Some Dir"
  shows "\<exists>fls'. mioutil_AppendFile None fls dst src = Inr fls' \<and>
           (\<exists>n. map_of fls' dst = Some (File n)) \<and>
           (\<forall>p n. p \<noteq> dst \<longrightarrow> map_of fls p = Some (File n) \<longrightarrow> map_of fls' p = Some (File n))"
proof (cases "map_of fls dst")
  case None
  then show ?thesis using assms
    by (auto simp: mioutil_AppendFile_def fsStatFile_def map_of_fsWriteFile map_of_mkParents_Some)
next
  case (Some nd)
  with assms(2) obtain old where "nd = File old" by (cases nd) auto
  with Some show ?thesis using assms
    by (auto simp: mioutil_AppendFile_def fsStatFile_def map_of_fsWriteFile)
qed

lemma appendParts_append_step:
  assumes "entry \<noteq> fsMetaJSONFile" "decodePartFile entry = Inr (nextPartNumber, etag)"
      and "mioutil_AppendFile (faults (dir @ [entry])) fls (filePath fl) (dir @ [entry]) = Inr fls'"
  shows "appendParts faults dir (entry # entries) fls fl nextPartNumber =
         appendParts faults dir entries fls'
           (fl\<lparr>parts := parts fl @ [\<lparr>PartNumber = nextPartNumber, ETag = etag, PartSize = 0\<rparr>]\<rparr>)
           (nextPartNumber + 1)"
  using assms by (simp add: Let_def)

lemma exAppend:
  "appendFileMap (backgroundAppend exHelpers (\<lambda>p. None) ''u1'' exFS ''bucket'' ''object'' ''id1'')
     ''id1'' =
   Some \<lparr>filePath = [''export'', ''.minio.sys'', ''tmp'', ''fsid'', ''id1.u1''],
         parts = [\<lparr>PartNumber = 1, ETag = ''aa'', PartSize = 0\<rparr>,
                  \<lparr>PartNumber = 2, ETag = ''bb'', PartSize = 0\<rparr>,
                  \<lparr>PartNumber = 3, ETag = ''cc'', PartSize = 0\<rparr>]\<rparr>"
proof -
  let ?tmp = "[''export'', ''.minio.sys'', ''tmp'', ''fsid'', ''id1.u1'']"
  let ?f0 = "\<lparr>filePath = ?tmp, parts = []\<rparr>"
  let ?e1 = "exDir @ [''00001.aa'']" and ?e2 = "exDir @ [''00002.bb'']"
    and ?e3 = "exDir @ [''00003.cc'']"
  have ne: "?e1 \<noteq> ?tmp" "?e2 \<noteq> ?tmp" "?e3 \<noteq> ?tmp" by (simp_all add: exDir_def)
  have nm: "''00001.aa'' \<noteq> fsMetaJSONFile" "''00002.bb'' \<noteq> fsMetaJSONFile"
    "''00003.cc'' \<noteq> fsMetaJSONFile" by (simp_all add: fsMetaJSONFile_def)
  from mioutil_AppendFile_ok[of exFiles ?e1 _ ?tmp] exStat obtain fls1 where
    a1: "mioutil_AppendFile None exFiles ?tmp ?e1 = Inr fls1"
    and t1: "\<exists>n. map_of fls1 ?tmp = Some (File n)"
    and k1: "\<forall>p n. p \<noteq> ?tmp \<longrightarrow> map_of exFiles p = Some (File n) \<longrightarrow> map_of fls1 p = Some (File n)"
    by auto
  from k1 exStat ne have s2: "map_of fls1 ?e2 = Some (File 1048576)"
    and s3: "map_of fls1 ?e3 = Some (File 10)" by auto
  from t1 have d1: "map_of fls1 ?tmp \<noteq> Some Dir" by auto
  from mioutil_AppendFile_ok[OF s2 d1] obtain fls2 where
    a2: "mioutil_AppendFile None fls1 ?tmp ?e2 = Inr fls2"
    and t2: "\<exists>n. map_of fls2 ?tmp = Some (File n)"
    and k2: "\<forall>p n. p \<noteq> ?tmp \<longrightarrow> map_of fls1 p = Some (File n) \<longrightarrow> map_of fls2 p = Some (File n)"
    by auto
  from k2 s3 ne have s3': "map_of fls2 ?e3 = Some (File 10)" by auto
  from t2 have d2: "map_of fls2 ?tmp \<noteq> Some Dir" by auto
  from mioutil_AppendFile_ok[OF s3' d2] obtain fls3 where
    a3: "mioutil_AppendFile None fls2 ?tmp ?e3 = Inr fls3" by auto
  let ?p1 = "\<lparr>PartNumber = 1, ETag = ''aa'', PartSize = 0\<rparr>"
  let ?p2 = "\<lparr>PartNumber = 2, ETag = ''bb'', PartSize = 0\<rparr>"
  let ?p3 = "\<lparr>PartNumber = 3, ETag = ''cc'', PartSize = 0\<rparr>"
  have "appendParts (\<lambda>p. None) exDir [''00001.aa'', ''00002.bb'', ''00003.cc'', ''fs.json'']
          exFiles ?f0 1 =
        appendParts (\<lambda>p. None) exDir [''00002.bb'', ''00003.cc'', ''fs.json''] fls1
          (?f0\<lparr>parts := parts ?f0 @ [?p1]\<rparr>) (1 + 1)"
    by (rule appendParts_append_step) (simp_all add: nm exDecode a1)
  also have "\<dots> =
        appendParts (\<lambda>p. None) exDir [''00003.cc'', ''fs.json''] fls2
          (?f0\<lparr>parts := [?p1, ?p2]\<rparr>) (2 + 1)"
    using appendParts_append_step[of "''00002.bb''" 2 "''bb''" "\<lambda>p. None" exDir fls1
        "?f0\<lparr>parts := parts ?f0 @ [?p1]\<rparr>" fls2 "[''00003.cc'', ''fs.json'']"]
    by (simp add: nm exDecode a2)
  also have "\<dots> =
        appendParts (\<lambda>p. None) exDir [''fs.json''] fls3
          (?f0\<lparr>parts := [?p1, ?p2, ?p3]\<rparr>) (3 + 1)"
    using appendParts_append_step[of "''00003.cc''" 3 "''cc''" "\<lambda>p. None" exDir fls2
        "?f0\<lparr>parts := [?p1, ?p2]\<rparr>" fls3 "[''fs.json'']"]
    by (simp add: nm exDecode a3)
  also have "\<dots> = (fls3, ?f0\<lparr>parts := [?p1, ?p2, ?p3]\<rparr>)"
    by (simp add: fsMetaJSONFile_def)
  finally have run: "appendParts (\<lambda>p. None) exDir
      [''00001.aa'', ''00002.bb'', ''00003.cc'', ''fs.json''] exFiles ?f0 1 =
      (fls3, ?f0\<lparr>parts := [?p1, ?p2, ?p3]\<rparr>)" .
  have fs: "fsFiles exFS = exFiles" "appendFileMap exFS ''id1'' = None" "fsPath exFS = [''export'']"
    "fsUUID exFS = ''fsid''"
    by (simp_all add: exFS_def)
  show ?thesis
    by (simp add: backgroundAppend_def Let_def fs exUploadDir exReadDir exSort
        minioMetaTmpBucket_def run del: appendParts.simps)
qed

text \<open>One run on the concrete object layer appends the parts 1, 2 and 3.\<close>

theorem backgroundAppend_contiguous_witness:
  "appendFileMap exFS = (\<lambda>uploadID. None) \<and>
   appendFileMap (backgroundAppends exHelpers [] exFS) ''id1'' = None \<and>
   readDir (fsFiles (backgroundAppends exHelpers [] exFS))
     (getUploadIDDir exHelpers (backgroundAppends exHelpers [] exFS) ''bucket'' ''object'' ''id1'')
     = Inr [''fs.json'', ''00002.bb'', ''00001.aa'', ''00003.cc''] \<and>
   appendFileMap
     (backgroundAppend exHelpers (\<lambda>p. None) ''u1'' (backgroundAppends exHelpers [] exFS)
        ''bucket'' ''object'' ''id1'') ''id1'' =
     Some \<lparr>filePath = [''export'', ''.minio.sys'', ''tmp'', ''fsid'', ''id1.u1''],
           parts = [\<lparr>PartNumber = 1, ETag = ''aa'', PartSize = 0\<rparr>,
                    \<lparr>PartNumber = 2, ETag = ''bb'', PartSize = 0\<rparr>,
                    \<lparr>PartNumber = 3, ETag = ''cc'', PartSize = 0\<rparr>]\<rparr> \<and>
   contiguous
     \<lparr>filePath = [''export'', ''.minio.sys'', ''tmp'', ''fsid'', ''id1.u1''],
      parts = [\<lparr>PartNumber = 1, ETag = ''aa'', PartSize = 0\<rparr>,
               \<lparr>PartNumber = 2, ETag = ''bb'', PartSize = 0\<rparr>,
               \<lparr>PartNumber = 3, ETag = ''cc'', PartSize = 0\<rparr>]\<rparr>"
proof -
  have h: "appendFileMap exFS = (\<lambda>uploadID. None)" by (simp add: exFS_def)
  have r: "readDir (fsFiles exFS) (getUploadIDDir exHelpers exFS ''bucket'' ''object'' ''id1'')
     = Inr [''fs.json'', ''00002.bb'', ''00001.aa'', ''00003.cc'']"
  proof -
    have "fsFiles exFS = exFiles" by (simp add: exFS_def)
    then show ?thesis by (simp add: exUploadDir exReadDir)
  qed
  from backgroundAppend_contiguous[OF h, of exHelpers "[]" "\<lambda>p. None" "''u1''" "''bucket''"
      "''object''" "''id1''"] h r exAppend
  show ?thesis by auto
qed

subsection \<open>The validation of the parts\<close>

lemma fsStatFile_Inl:
  "fsStatFile fls p = Inl err \<Longrightarrow> err = errFileNotFound \<or> err = errFileAccessDenied"
  by (auto simp: fsStatFile_def split: option.splits fnode.splits)

lemma partOnDisk_Some:
  "(partOnDisk fls dir part = Some s) =
   (\<exists>sz. fsStatFile fls (dir @ [encodePartFile (fst part) (snd part)]) = Inr sz \<and> s = int sz)"
  by (auto simp: partOnDisk_def split: sum.splits)

lemma validateParts_head:
  assumes "partOnDisk fls dir part = Some s" "rest \<noteq> []"
  shows "validateParts fls dir ps (part # rest) =
     (if s < globalMinPartSize then Some (PartTooSmall (fst part) s (snd part))
      else if (if ps = - 1 then s else ps) \<noteq> s then Some PartsSizeUnequal
      else validateParts fls dir (if ps = - 1 then s else ps) rest)"
  using assms
  by (auto simp: partOnDisk_Some Let_def isMinAllowedPartSize_def)

lemma validateParts_prefix:
  assumes "\<forall>q\<in>set pre. partOnDisk fls dir q = Some r \<and> globalMinPartSize \<le> r"
      and "ps = - 1 \<or> ps = r" and "rest \<noteq> []"
  shows "validateParts fls dir ps (pre @ rest) =
         validateParts fls dir (if pre = [] then ps else r) rest"
  using assms
proof (induction pre arbitrary: ps)
  case Nil
  then show ?case by simp
next
  case (Cons q pre)
  from Cons.prems(1) have q: "partOnDisk fls dir q = Some r" and m: "globalMinPartSize \<le> r"
    and rest: "\<forall>q\<in>set pre. partOnDisk fls dir q = Some r \<and> globalMinPartSize \<le> r" by auto
  have ne: "pre @ rest \<noteq> []" using Cons.prems(3) by simp
  have "validateParts fls dir ps ((q # pre) @ rest) = validateParts fls dir r (pre @ rest)"
    using validateParts_head[OF q ne, of ps] m Cons.prems(2) by auto
  also have "\<dots> = validateParts fls dir (if pre = [] then r else r) rest"
    by (rule Cons.IH[OF rest _ Cons.prems(3)]) simp
  finally show ?case by simp
qed

lemma validateParts_PartTooSmall_D:
  assumes "validateParts fls dir ps prts = Some (PartTooSmall n s e)"
  shows "\<exists>pre post r. prts = pre @ (n, e) # post \<and> post \<noteq> [] \<and> (ps \<noteq> - 1 \<longrightarrow> r = ps) \<and>
           (\<forall>q\<in>set pre. partOnDisk fls dir q = Some r \<and> globalMinPartSize \<le> r) \<and>
           partOnDisk fls dir (n, e) = Some s \<and> s < globalMinPartSize"
  using assms
proof (induction prts arbitrary: ps)
  case Nil
  then show ?case by simp
next
  case (Cons part rest)
  show ?case
  proof (cases "partOnDisk fls dir part")
    case None
    then obtain err where "fsStatFile fls (dir @ [encodePartFile (fst part) (snd part)]) = Inl err"
      by (auto simp: partOnDisk_def split: sum.splits)
    with Cons.prems fsStatFile_Inl[OF this] show ?thesis by (auto simp: Let_def)
  next
    case (Some sz)
    have rest: "rest \<noteq> []"
      using Cons.prems Some by (auto simp: partOnDisk_Some Let_def)
    note hd = validateParts_head[OF Some rest, of ps]
    have nonneg: "0 \<le> sz" using Some by (auto simp: partOnDisk_Some)
    show ?thesis
    proof (cases "sz < globalMinPartSize")
      case True
      with hd Cons.prems have "n = fst part" "s = sz" "e = snd part" by auto
      then have "part # rest = [] @ (n, e) # rest" by simp
      moreover have "partOnDisk fls dir (n, e) = Some s"
        using Some \<open>n = fst part\<close> \<open>e = snd part\<close> \<open>s = sz\<close> by simp
      ultimately show ?thesis using rest True \<open>s = sz\<close>
        by (intro exI[of _ "[]"] exI[of _ rest] exI[of _ ps]) simp
    next
      case False
      let ?ps' = "if ps = - 1 then sz else ps"
      from hd Cons.prems False have eq: "?ps' = sz"
        and rec: "validateParts fls dir ?ps' rest = Some (PartTooSmall n s e)"
        by (auto split: if_splits)
      have ne: "?ps' \<noteq> - 1" using eq nonneg by simp
      from Cons.IH[OF rec] ne obtain pre post r where
        d: "rest = pre @ (n, e) # post" "post \<noteq> []" "r = ?ps'"
        "\<forall>q\<in>set pre. partOnDisk fls dir q = Some r \<and> globalMinPartSize \<le> r"
        "partOnDisk fls dir (n, e) = Some s" "s < globalMinPartSize" by blast
      have r: "r = sz" using d(3) eq by simp
      have all: "\<forall>q\<in>set (part # pre). partOnDisk fls dir q = Some r \<and> globalMinPartSize \<le> r"
        using d(4) Some False r by auto
      have psr: "ps \<noteq> - 1 \<longrightarrow> r = ps" using eq r by auto
      have "part # rest = (part # pre) @ (n, e) # post" using d(1) by simp
      with d(2,5,6) all psr show ?thesis by blast
    qed
  qed
qed

lemma validateParts_PartsSizeUnequal_D:
  assumes "validateParts fls dir ps prts = Some PartsSizeUnequal"
  shows "\<exists>pre part post r s. prts = pre @ part # post \<and> post \<noteq> [] \<and>
           (ps \<noteq> - 1 \<longrightarrow> r = ps) \<and> (ps = - 1 \<longrightarrow> pre \<noteq> []) \<and>
           (\<forall>q\<in>set pre. partOnDisk fls dir q = Some r \<and> globalMinPartSize \<le> r) \<and>
           partOnDisk fls dir part = Some s \<and> globalMinPartSize \<le> s \<and> s \<noteq> r"
  using assms
proof (induction prts arbitrary: ps)
  case Nil
  then show ?case by simp
next
  case (Cons part rest)
  show ?case
  proof (cases "partOnDisk fls dir part")
    case None
    then obtain err where "fsStatFile fls (dir @ [encodePartFile (fst part) (snd part)]) = Inl err"
      by (auto simp: partOnDisk_def split: sum.splits)
    with Cons.prems fsStatFile_Inl[OF this] show ?thesis by (auto simp: Let_def)
  next
    case (Some sz)
    have rest: "rest \<noteq> []"
      using Cons.prems Some by (auto simp: partOnDisk_Some Let_def)
    note hd = validateParts_head[OF Some rest, of ps]
    have nonneg: "0 \<le> sz" using Some by (auto simp: partOnDisk_Some)
    have min: "globalMinPartSize \<le> sz" using hd Cons.prems by (auto split: if_splits)
    let ?ps' = "if ps = - 1 then sz else ps"
    show ?thesis
    proof (cases "?ps' = sz")
      case False
      then have ps: "ps \<noteq> - 1" "ps \<noteq> sz" by (auto split: if_splits)
      have "part # rest = [] @ part # rest" by simp
      with rest ps Some min show ?thesis
        by (intro exI[of _ "[]"] exI[of _ part] exI[of _ rest] exI[of _ ps] exI[of _ sz]) simp
    next
      case True
      with hd Cons.prems min have rec: "validateParts fls dir ?ps' rest = Some PartsSizeUnequal"
        by (auto split: if_splits)
      have ne: "?ps' \<noteq> - 1" using True nonneg by simp
      from Cons.IH[OF rec] ne obtain pre p post r s where
        d: "rest = pre @ p # post" "post \<noteq> []" "r = ?ps'"
        "\<forall>q\<in>set pre. partOnDisk fls dir q = Some r \<and> globalMinPartSize \<le> r"
        "partOnDisk fls dir p = Some s" "globalMinPartSize \<le> s" "s \<noteq> r" by blast
      have r: "r = sz" using d(3) True by simp
      have all: "\<forall>q\<in>set (part # pre). partOnDisk fls dir q = Some r \<and> globalMinPartSize \<le> r"
        using d(4) Some min r by auto
      have psr: "ps \<noteq> - 1 \<longrightarrow> r = ps" using True r by auto
      have "part # rest = (part # pre) @ p # post" "part # pre \<noteq> []" using d(1) by simp_all
      with d(2,5,6,7) all psr show ?thesis by blast
    qed
  qed
qed

lemma validateParts_PartTooSmall_I:
  assumes "prts = pre @ (n, e) # post" "post \<noteq> []"
      and "\<forall>q\<in>set pre. partOnDisk fls dir q = Some r \<and> globalMinPartSize \<le> r"
      and "partOnDisk fls dir (n, e) = Some s" "s < globalMinPartSize"
  shows "validateParts fls dir (- 1) prts = Some (PartTooSmall n s e)"
proof -
  have "validateParts fls dir (- 1) prts =
        validateParts fls dir (if pre = [] then - 1 else r) ((n, e) # post)"
    unfolding assms(1) by (rule validateParts_prefix[OF assms(3)]) simp_all
  also have "\<dots> = Some (PartTooSmall n s e)"
    using validateParts_head[OF assms(4) assms(2)] assms(5) by simp
  finally show ?thesis .
qed

lemma validateParts_PartsSizeUnequal_I:
  assumes "prts = pre @ part # post" "post \<noteq> []" "pre \<noteq> []"
      and "\<forall>q\<in>set pre. partOnDisk fls dir q = Some r \<and> globalMinPartSize \<le> r"
      and "partOnDisk fls dir part = Some s" "globalMinPartSize \<le> s" "s \<noteq> r"
  shows "validateParts fls dir (- 1) prts = Some PartsSizeUnequal"
proof -
  have nonneg: "0 \<le> r" using assms(3,4) by (cases pre) (auto simp: partOnDisk_Some)
  have "validateParts fls dir (- 1) prts =
        validateParts fls dir (if pre = [] then - 1 else r) (part # post)"
    unfolding assms(1) by (rule validateParts_prefix[OF assms(4)]) simp_all
  also have "\<dots> = validateParts fls dir r (part # post)" using assms(3) by simp
  also have "\<dots> = Some PartsSizeUnequal"
    using validateParts_head[OF assms(5) assms(2), of r] assms(6,7) nonneg by auto
  finally show ?thesis .
qed

text \<open>
  Claim C5, as amended.  When the checks before the validation of the parts have
  passed, \<open>CompleteMultipartUpload\<close> rejects with \<open>PartTooSmall\<close> for a claimed part
  exactly when that part is not the last one, its size on disk is below 5 MiB, and
  all parts claimed before it are on disk with one common size of at least 5 MiB.
  So the last part is exempt, and no size is checked for an upload of a single part.
\<close>

theorem completeChecks_PartTooSmall:
  assumes "completePrechecks h fs bucket object uploadID prts = None"
  shows "(completeChecks h fs bucket object uploadID prts = Some (PartTooSmall n s etag)) =
         (\<exists>pre post r. prts = pre @ (n, etag) # post \<and> post \<noteq> [] \<and>
            (\<forall>q\<in>set pre. partOnDisk (fsFiles fs) (getUploadIDDir h fs bucket object uploadID) q
                            = Some r \<and> globalMinPartSize \<le> r) \<and>
            partOnDisk (fsFiles fs) (getUploadIDDir h fs bucket object uploadID) (n, etag) = Some s \<and>
            s < globalMinPartSize)"
proof -
  let ?dir = "getUploadIDDir h fs bucket object uploadID"
  have c: "completeChecks h fs bucket object uploadID prts =
           validateParts (fsFiles fs) ?dir (- 1) prts"
    using assms by (simp add: completeChecks_def)
  show ?thesis
    unfolding c
  proof
    assume "validateParts (fsFiles fs) ?dir (- 1) prts = Some (PartTooSmall n s etag)"
    from validateParts_PartTooSmall_D[OF this]
    show "\<exists>pre post r. prts = pre @ (n, etag) # post \<and> post \<noteq> [] \<and>
            (\<forall>q\<in>set pre. partOnDisk (fsFiles fs) ?dir q = Some r \<and> globalMinPartSize \<le> r) \<and>
            partOnDisk (fsFiles fs) ?dir (n, etag) = Some s \<and> s < globalMinPartSize"
      by blast
  next
    assume "\<exists>pre post r. prts = pre @ (n, etag) # post \<and> post \<noteq> [] \<and>
            (\<forall>q\<in>set pre. partOnDisk (fsFiles fs) ?dir q = Some r \<and> globalMinPartSize \<le> r) \<and>
            partOnDisk (fsFiles fs) ?dir (n, etag) = Some s \<and> s < globalMinPartSize"
    then show "validateParts (fsFiles fs) ?dir (- 1) prts = Some (PartTooSmall n s etag)"
      using validateParts_PartTooSmall_I by blast
  qed
qed

text \<open>
  Claim C6, as amended.  When the checks before the validation of the parts have
  passed, \<open>CompleteMultipartUpload\<close> rejects with \<open>PartsSizeUnequal\<close> exactly when
  some claimed part that is neither the first nor the last is on disk with a size of
  at least 5 MiB that differs from the common size, of at least 5 MiB, of all parts
  claimed before it.  The last part is exempt.
\<close>

theorem completeChecks_PartsSizeUnequal:
  assumes "completePrechecks h fs bucket object uploadID prts = None"
  shows "(completeChecks h fs bucket object uploadID prts = Some PartsSizeUnequal) =
         (\<exists>pre part post r s. prts = pre @ part # post \<and> pre \<noteq> [] \<and> post \<noteq> [] \<and>
            (\<forall>q\<in>set pre. partOnDisk (fsFiles fs) (getUploadIDDir h fs bucket object uploadID) q
                            = Some r \<and> globalMinPartSize \<le> r) \<and>
            partOnDisk (fsFiles fs) (getUploadIDDir h fs bucket object uploadID) part = Some s \<and>
            globalMinPartSize \<le> s \<and> s \<noteq> r)"
proof -
  let ?dir = "getUploadIDDir h fs bucket object uploadID"
  have c: "completeChecks h fs bucket object uploadID prts =
           validateParts (fsFiles fs) ?dir (- 1) prts"
    using assms by (simp add: completeChecks_def)
  show ?thesis
    unfolding c
  proof
    assume "validateParts (fsFiles fs) ?dir (- 1) prts = Some PartsSizeUnequal"
    from validateParts_PartsSizeUnequal_D[OF this]
    show "\<exists>pre part post r s. prts = pre @ part # post \<and> pre \<noteq> [] \<and> post \<noteq> [] \<and>
            (\<forall>q\<in>set pre. partOnDisk (fsFiles fs) ?dir q = Some r \<and> globalMinPartSize \<le> r) \<and>
            partOnDisk (fsFiles fs) ?dir part = Some s \<and> globalMinPartSize \<le> s \<and> s \<noteq> r"
      by blast
  next
    assume "\<exists>pre part post r s. prts = pre @ part # post \<and> pre \<noteq> [] \<and> post \<noteq> [] \<and>
            (\<forall>q\<in>set pre. partOnDisk (fsFiles fs) ?dir q = Some r \<and> globalMinPartSize \<le> r) \<and>
            partOnDisk (fsFiles fs) ?dir part = Some s \<and> globalMinPartSize \<le> s \<and> s \<noteq> r"
    then show "validateParts (fsFiles fs) ?dir (- 1) prts = Some PartsSizeUnequal"
      using validateParts_PartsSizeUnequal_I by blast
  qed
qed

lemma exEncode:
  "encodePartFile 1 ''aa'' = ''00001.aa''"
  "encodePartFile 2 ''bb'' = ''00002.bb''"
  "encodePartFile 3 ''cc'' = ''00003.cc''"
  "encodePartFile 4 ''dd'' = ''00004.dd''"
  by (simp_all add: encodePartFile_def sprintf_5d_def natDigits.simps digitChar_def numeral_eq_Suc)

lemma exFS2_sel:
  "fsFiles exFS2 = (exDir @ [''00004.dd''], File 6291456) # exFiles"
  "fsPath exFS2 = [''export'']"
  by (simp_all add: exFS2_def exFS_def)

lemma exUploadDir2: "getUploadIDDir exHelpers exFS2 ''bucket'' ''object'' ''id1'' = exDir"
  by (simp add: getUploadIDDir_def exHelpers_def exFS2_sel minioMetaMultipartBucket_def exDir_def)

lemma exStat2:
  "map_of (fsFiles exFS2) (exDir @ [''00001.aa'']) = Some (File 5242880)"
  "map_of (fsFiles exFS2) (exDir @ [''00002.bb'']) = Some (File 1048576)"
  "map_of (fsFiles exFS2) (exDir @ [''00003.cc'']) = Some (File 10)"
  "map_of (fsFiles exFS2) (exDir @ [''00004.dd'']) = Some (File 6291456)"
  "map_of (fsFiles exFS2) (exDir @ [''fs.json'']) = Some (File 20)"
  "map_of (fsFiles exFS2) [''export'', ''bucket''] = Some Dir"
  by (simp_all add: exFS2_sel exFiles_def exDir_def)

lemma exOnDisk:
  "partOnDisk (fsFiles exFS2) exDir (1, ''aa'') = Some 5242880"
  "partOnDisk (fsFiles exFS2) exDir (2, ''bb'') = Some 1048576"
  "partOnDisk (fsFiles exFS2) exDir (3, ''cc'') = Some 10"
  "partOnDisk (fsFiles exFS2) exDir (4, ''dd'') = Some 6291456"
  by (simp_all add: partOnDisk_def fsStatFile_def exEncode exStat2)

lemma exPrechecks:
  "completePrechecks exHelpers exFS2 ''bucket'' ''object'' ''id1'' prts = None"
  by (simp add: completePrechecks_def exHelpers_def statBucketDir_def fsStatDir_def
      exStat2 exFS2_sel(2) fsStatFile_def
      exUploadDir2[unfolded exHelpers_def] fsMetaJSONFile_def)

text \<open>On the concrete object layer, part 2 of three parts has 1 MiB.\<close>

theorem completeChecks_PartTooSmall_witness:
  "completePrechecks exHelpers exFS2 ''bucket'' ''object'' ''id1''
     [(1, ''aa''), (2, ''bb''), (3, ''cc'')] = None \<and>
   partOnDisk (fsFiles exFS2) (getUploadIDDir exHelpers exFS2 ''bucket'' ''object'' ''id1'')
     (1, ''aa'') = Some 5242880 \<and>
   globalMinPartSize \<le> 5242880 \<and>
   partOnDisk (fsFiles exFS2) (getUploadIDDir exHelpers exFS2 ''bucket'' ''object'' ''id1'')
     (2, ''bb'') = Some 1048576 \<and>
   1048576 < globalMinPartSize \<and>
   completeChecks exHelpers exFS2 ''bucket'' ''object'' ''id1''
     [(1, ''aa''), (2, ''bb''), (3, ''cc'')] = Some (PartTooSmall 2 1048576 ''bb'')"
proof -
  let ?prts = "[(1, ''aa''), (2, ''bb''), (3::int, ''cc'')]"
  let ?dir = "getUploadIDDir exHelpers exFS2 ''bucket'' ''object'' ''id1''"
  have p: "completePrechecks exHelpers exFS2 ''bucket'' ''object'' ''id1'' ?prts = None"
    by (rule exPrechecks)
  have d1: "partOnDisk (fsFiles exFS2) ?dir (1, ''aa'') = Some 5242880"
    and d2: "partOnDisk (fsFiles exFS2) ?dir (2, ''bb'') = Some 1048576"
    by (simp_all add: exUploadDir2 exOnDisk)
  have m: "globalMinPartSize \<le> 5242880" "1048576 < globalMinPartSize"
    by (simp_all add: globalMinPartSize_def)
  have "\<exists>pre post r. ?prts = pre @ (2, ''bb'') # post \<and> post \<noteq> [] \<and>
            (\<forall>q\<in>set pre. partOnDisk (fsFiles exFS2) ?dir q = Some r \<and> globalMinPartSize \<le> r) \<and>
            partOnDisk (fsFiles exFS2) ?dir (2, ''bb'') = Some 1048576 \<and>
            1048576 < globalMinPartSize"
    using d1 d2 m
    by (intro exI[of _ "[(1, ''aa'')]"] exI[of _ "[(3, ''cc'')]"] exI[of _ 5242880]) simp
  with completeChecks_PartTooSmall[OF p, of 2 1048576 "''bb''"]
  have "completeChecks exHelpers exFS2 ''bucket'' ''object'' ''id1'' ?prts =
          Some (PartTooSmall 2 1048576 ''bb'')" by blast
  with p d1 d2 m show ?thesis by simp
qed

text \<open>
  Claim C5 as stated fails: part 2 is claimed third of four and has 1 MiB on disk, but
  the part claimed before it has another size than the first, and the upload is
  rejected with \<open>PartsSizeUnequal\<close>.
\<close>

theorem completeChecks_small_part_not_PartTooSmall:
  "partOnDisk (fsFiles exFS2) (getUploadIDDir exHelpers exFS2 ''bucket'' ''object'' ''id1'')
     (2, ''bb'') = Some 1048576 \<and>
   1048576 < globalMinPartSize \<and>
   [(1, ''aa''), (4, ''dd''), (2, ''bb''), (3, ''cc'')] ! 2 = (2, ''bb'') \<and>
   (2::nat) < length [(1::int, ''aa''), (4, ''dd''), (2, ''bb''), (3, ''cc'')] - 1 \<and>
   completeChecks exHelpers exFS2 ''bucket'' ''object'' ''id1''
     [(1, ''aa''), (4, ''dd''), (2, ''bb''), (3, ''cc'')] = Some PartsSizeUnequal"
proof -
  have "validateParts (fsFiles exFS2) exDir (- 1) [(1, ''aa''), (4, ''dd''), (2, ''bb''), (3, ''cc'')]
          = Some PartsSizeUnequal"
    by (simp add: validateParts_head[OF exOnDisk(1)] validateParts_head[OF exOnDisk(4)]
        globalMinPartSize_def del: validateParts.simps)
  then have "completeChecks exHelpers exFS2 ''bucket'' ''object'' ''id1''
     [(1, ''aa''), (4, ''dd''), (2, ''bb''), (3, ''cc'')] = Some PartsSizeUnequal"
    by (simp add: completeChecks_def exPrechecks exUploadDir2)
  then show ?thesis
    by (simp add: exUploadDir2 exOnDisk globalMinPartSize_def)
qed

text \<open>On the concrete object layer, the parts of 5 MiB and of 6 MiB before a last part.\<close>

theorem completeChecks_PartsSizeUnequal_witness:
  "completePrechecks exHelpers exFS2 ''bucket'' ''object'' ''id1''
     [(1, ''aa''), (4, ''dd''), (3, ''cc'')] = None \<and>
   partOnDisk (fsFiles exFS2) (getUploadIDDir exHelpers exFS2 ''bucket'' ''object'' ''id1'')
     (1, ''aa'') = Some 5242880 \<and>
   globalMinPartSize \<le> 5242880 \<and>
   partOnDisk (fsFiles exFS2) (getUploadIDDir exHelpers exFS2 ''bucket'' ''object'' ''id1'')
     (4, ''dd'') = Some 6291456 \<and>
   globalMinPartSize \<le> 6291456 \<and>
   completeChecks exHelpers exFS2 ''bucket'' ''object'' ''id1''
     [(1, ''aa''), (4, ''dd''), (3, ''cc'')] = Some PartsSizeUnequal"
proof -
  let ?prts = "[(1, ''aa''), (4, ''dd''), (3::int, ''cc'')]"
  let ?dir = "getUploadIDDir exHelpers exFS2 ''bucket'' ''object'' ''id1''"
  have p: "completePrechecks exHelpers exFS2 ''bucket'' ''object'' ''id1'' ?prts = None"
    by (rule exPrechecks)
  have d1: "partOnDisk (fsFiles exFS2) ?dir (1, ''aa'') = Some 5242880"
    and d4: "partOnDisk (fsFiles exFS2) ?dir (4, ''dd'') = Some 6291456"
    by (simp_all add: exUploadDir2 exOnDisk)
  have m: "globalMinPartSize \<le> 5242880" "globalMinPartSize \<le> 6291456"
    by (simp_all add: globalMinPartSize_def)
  have "\<exists>pre part post r s. ?prts = pre @ part # post \<and> pre \<noteq> [] \<and> post \<noteq> [] \<and>
            (\<forall>q\<in>set pre. partOnDisk (fsFiles exFS2) ?dir q = Some r \<and> globalMinPartSize \<le> r) \<and>
            partOnDisk (fsFiles exFS2) ?dir part = Some s \<and> globalMinPartSize \<le> s \<and> s \<noteq> r"
    using d1 d4 m
    by (intro exI[of _ "[(1, ''aa'')]"] exI[of _ "(4, ''dd'')"] exI[of _ "[(3, ''cc'')]"]
        exI[of _ 5242880] exI[of _ 6291456]) simp
  with completeChecks_PartsSizeUnequal[OF p]
  have "completeChecks exHelpers exFS2 ''bucket'' ''object'' ''id1'' ?prts = Some PartsSizeUnequal"
    by blast
  with p d1 d4 m show ?thesis by simp
qed

text \<open>
  Claim C6 as stated fails: the parts claimed first and second have different sizes on
  disk and neither is the last, but the first is below 5 MiB and the upload is
  rejected with \<open>PartTooSmall\<close>.
\<close>

theorem completeChecks_unequal_parts_not_PartsSizeUnequal:
  "partOnDisk (fsFiles exFS2) (getUploadIDDir exHelpers exFS2 ''bucket'' ''object'' ''id1'')
     (2, ''bb'') = Some 1048576 \<and>
   partOnDisk (fsFiles exFS2) (getUploadIDDir exHelpers exFS2 ''bucket'' ''object'' ''id1'')
     (3, ''cc'') = Some 10 \<and>
   [(2, ''bb''), (3, ''cc''), (1, ''aa'')] ! 0 = (2, ''bb'') \<and>
   [(2, ''bb''), (3, ''cc''), (1, ''aa'')] ! 1 = (3, ''cc'') \<and>
   (1::nat) < length [(2::int, ''bb''), (3, ''cc''), (1, ''aa'')] - 1 \<and>
   completeChecks exHelpers exFS2 ''bucket'' ''object'' ''id1''
     [(2, ''bb''), (3, ''cc''), (1, ''aa'')] = Some (PartTooSmall 2 1048576 ''bb'')"
proof -
  have "validateParts (fsFiles exFS2) exDir (- 1) [(2, ''bb''), (3, ''cc''), (1, ''aa'')]
          = Some (PartTooSmall 2 1048576 ''bb'')"
    by (simp add: validateParts_head[OF exOnDisk(2)] globalMinPartSize_def
        del: validateParts.simps)
  then have "completeChecks exHelpers exFS2 ''bucket'' ''object'' ''id1''
     [(2, ''bb''), (3, ''cc''), (1, ''aa'')] = Some (PartTooSmall 2 1048576 ''bb'')"
    by (simp add: completeChecks_def exPrechecks exUploadDir2)
  then show ?thesis
    by (simp add: exUploadDir2 exOnDisk)
qed

subsection \<open>PutObjectPart and AbortMultipartUpload\<close>

lemma map_of_fsRemoveAll:
  "map_of (fsRemoveAll fls dir) p = (if prefix dir p then None else map_of fls p)"
  by (induction fls) (auto simp: fsRemoveAll_def)

lemma fsStatFile_no_file:
  assumes "\<forall>sz. map_of fls p \<noteq> Some (File sz)"
  shows "\<exists>err. fsStatFile fls p = Inl err \<and> (err = errFileNotFound \<or> err = errFileAccessDenied)"
  using assms by (auto simp: fsStatFile_def split: option.splits fnode.splits)

text \<open>
  Claim C7, as amended.  When the names pass the argument check, the bucket exists and
  the declared size is not negative, \<open>PutObjectPart\<close> for an upload whose metadata
  file does not exist returns \<open>InvalidUploadID\<close> and leaves the object layer as it
  was: no file is written, in the multipart area or elsewhere.
\<close>

theorem PutObjectPart_InvalidUploadID:
  assumes "checkPutObjectPartArgs h bucket object = None"
      and "statBucketDir fs bucket = None"
      and "0 \<le> readerSize data"
      and "\<forall>sz. map_of (fsFiles fs) (getUploadIDDir h fs bucket object uploadID @ [fsMetaJSONFile])
                 \<noteq> Some (File sz)"
  shows "PutObjectPart h env fs bucket object uploadID partID data
           = (Inl (InvalidUploadID uploadID), fs) \<and>
         multipartFiles (snd (PutObjectPart h env fs bucket object uploadID partID data))
           = multipartFiles fs"
proof -
  from fsStatFile_no_file[OF assms(4)] obtain err where
    e: "fsStatFile (fsFiles fs) (getUploadIDDir h fs bucket object uploadID @ [fsMetaJSONFile])
          = Inl err" "err = errFileNotFound \<or> err = errFileAccessDenied" by blast
  have "PutObjectPart h env fs bucket object uploadID partID data
           = (Inl (InvalidUploadID uploadID), fs)"
    using assms(1,2,3) e by (auto simp: PutObjectPart_def Let_def)
  then show ?thesis by simp
qed

lemma exFS_sel:
  "fsFiles exFS = exFiles" "fsPath exFS = [''export'']" "fsUUID exFS = ''fsid''"
  "appendFileMap exFS = (\<lambda>uploadID. None)"
  by (simp_all add: exFS_def)

lemma exBucket: "statBucketDir exFS ''bucket'' = None"
  by (simp add: statBucketDir_def fsStatDir_def exFS_sel exStat)

text \<open>On the concrete object layer, for an upload that was never initiated.\<close>

theorem PutObjectPart_InvalidUploadID_witness:
  "checkPutObjectPartArgs exHelpers ''bucket'' ''object'' = None \<and>
   statBucketDir exFS ''bucket'' = None \<and>
   map_of (fsFiles exFS) (getUploadIDDir exHelpers exFS ''bucket'' ''object'' ''id9'' @ [fsMetaJSONFile])
     = None \<and>
   PutObjectPart exHelpers \<lparr>putUUID = ''u2'', putGenETag = ''gen'', putCreateFault = None\<rparr> exFS
     ''bucket'' ''object'' ''id9'' 1 \<lparr>readerSize = 5, readerBytes = 5, readerMD5 = ''ee''\<rparr>
     = (Inl (InvalidUploadID ''id9''), exFS)"
proof -
  let ?data = "\<lparr>readerSize = 5, readerBytes = 5, readerMD5 = ''ee''\<rparr>"
  have a: "checkPutObjectPartArgs exHelpers ''bucket'' ''object'' = None"
    by (simp add: exHelpers_def)
  have c: "0 \<le> readerSize ?data" by simp
  have m: "map_of (fsFiles exFS)
      (getUploadIDDir exHelpers exFS ''bucket'' ''object'' ''id9'' @ [fsMetaJSONFile]) = None"
    by (simp add: getUploadIDDir_def exHelpers_def exFS_sel minioMetaMultipartBucket_def
        fsMetaJSONFile_def exFiles_def exDir_def)
  then have d: "\<forall>sz. map_of (fsFiles exFS)
      (getUploadIDDir exHelpers exFS ''bucket'' ''object'' ''id9'' @ [fsMetaJSONFile])
        \<noteq> Some (File sz)" by simp
  from PutObjectPart_InvalidUploadID[OF a exBucket c d] a exBucket m
  show ?thesis by simp
qed

text \<open>
  Claim C7 as stated fails: with a root path under which neither the bucket nor the
  upload exists (what the test \<open>TestPutObjectPartFaultyDisk\<close> of the repository sets
  up), \<open>PutObjectPart\<close> returns \<open>BucketNotFound\<close>, not \<open>InvalidUploadID\<close>.
\<close>

theorem PutObjectPart_missing_bucket:
  "map_of (fsFiles (exFS\<lparr>fsPath := [''gone'']\<rparr>))
     (getUploadIDDir exHelpers (exFS\<lparr>fsPath := [''gone'']\<rparr>) ''bucket'' ''object'' ''id1''
        @ [fsMetaJSONFile]) = None \<and>
   fst (PutObjectPart exHelpers \<lparr>putUUID = ''u2'', putGenETag = ''gen'', putCreateFault = None\<rparr>
          (exFS\<lparr>fsPath := [''gone'']\<rparr>) ''bucket'' ''object'' ''id1'' 1
          \<lparr>readerSize = 5, readerBytes = 5, readerMD5 = ''ee''\<rparr>)
     = Inl (BucketNotFound ''bucket'')"
  by (simp add: PutObjectPart_def exHelpers_def statBucketDir_def fsStatDir_def exFS_sel
      getUploadIDDir_def minioMetaMultipartBucket_def fsMetaJSONFile_def exFiles_def exDir_def)

lemma AbortMultipartUpload_after_removal:
  assumes "AbortMultipartUpload h True fs bucket object uploadID = (None, fs')"
  shows "AbortMultipartUpload h removed fs' bucket object uploadID
           = (Some (InvalidUploadID uploadID), fs')"
proof -
  let ?dir = "getUploadIDDir h fs bucket object uploadID"
  let ?fs1 = "fs\<lparr>appendFileMap := (appendFileMap fs)(uploadID := None)\<rparr>"
  from assms have a: "checkAbortMultipartArgs h bucket object = None"
    by (auto simp: AbortMultipartUpload_def split: option.splits)
  from assms a have b: "statBucketDir fs bucket = None"
    by (auto simp: AbortMultipartUpload_def split: option.splits)
  have dir1: "getUploadIDDir h ?fs1 bucket object uploadID = ?dir"
    by (simp add: getUploadIDDir_def)
  from assms a b have fs': "fs' = ?fs1\<lparr>fsFiles := fsRemoveAll (fsFiles fs) ?dir\<rparr>"
    by (auto simp: AbortMultipartUpload_def Let_def dir1 split: sum.splits if_splits)
  have dir': "getUploadIDDir h fs' bucket object uploadID = ?dir"
    by (simp add: getUploadIDDir_def fs')
  have np: "\<not> prefix ?dir (fsPath fs @ [bucket])"
    by (auto simp: getUploadIDDir_def minioMetaMultipartBucket_def prefix_def)
  have b': "statBucketDir fs' bucket = None"
    using b np by (simp add: statBucketDir_def fsStatDir_def fs' map_of_fsRemoveAll)
  have gone: "fsStatFile (fsFiles fs') (?dir @ [fsMetaJSONFile]) = Inl errFileNotFound"
    by (simp add: fsStatFile_def fs' map_of_fsRemoveAll)
  have same: "fs'\<lparr>appendFileMap := (appendFileMap fs')(uploadID := None)\<rparr> = fs'"
    by (simp add: fs')
  show ?thesis
    by (simp add: AbortMultipartUpload_def Let_def a b' same dir' gone)
qed

text \<open>
  Claim C1, as amended.  After an abort that returned success and removed the
  directory of the upload, a second abort of the same upload changes nothing, neither
  on the file system nor in the map of the append files, and returns
  \<open>InvalidUploadID\<close>.
\<close>

theorem AbortMultipartUpload_second_call:
  assumes "AbortMultipartUpload h True fs bucket object uploadID = (None, fs')"
  shows "fst (AbortMultipartUpload h removed fs' bucket object uploadID)
           = Some (InvalidUploadID uploadID) \<and>
         snd (AbortMultipartUpload h removed fs' bucket object uploadID) = fs'"
  using AbortMultipartUpload_after_removal[OF assms, of removed] by simp

lemma exAbort:
  "AbortMultipartUpload exHelpers True exFS ''bucket'' ''object'' ''id1'' =
     (None, exFS\<lparr>appendFileMap := (appendFileMap exFS)(''id1'' := None),
                 fsFiles := fsRemoveAll exFiles exDir\<rparr>)"
  by (simp add: AbortMultipartUpload_def exBucket Let_def fsStatFile_def
      exUploadDir[unfolded exHelpers_def] exHelpers_def getUploadIDDir_def exStat exFS_sel
      minioMetaMultipartBucket_def fsMetaJSONFile_def
      exStat(4)[unfolded exDir_def, simplified] exDir_def)

text \<open>The two aborts on the concrete object layer.\<close>

theorem AbortMultipartUpload_second_call_witness:
  "AbortMultipartUpload exHelpers True exFS ''bucket'' ''object'' ''id1'' =
     (None, exFS\<lparr>appendFileMap := (appendFileMap exFS)(''id1'' := None),
                 fsFiles := fsRemoveAll exFiles exDir\<rparr>) \<and>
   fst (AbortMultipartUpload exHelpers True
          (exFS\<lparr>appendFileMap := (appendFileMap exFS)(''id1'' := None),
                fsFiles := fsRemoveAll exFiles exDir\<rparr>) ''bucket'' ''object'' ''id1'')
     = Some (InvalidUploadID ''id1'') \<and>
   snd (AbortMultipartUpload exHelpers True
          (exFS\<lparr>appendFileMap := (appendFileMap exFS)(''id1'' := None),
                fsFiles := fsRemoveAll exFiles exDir\<rparr>) ''bucket'' ''object'' ''id1'')
     = exFS\<lparr>appendFileMap := (appendFileMap exFS)(''id1'' := None),
            fsFiles := fsRemoveAll exFiles exDir\<rparr>"
  using AbortMultipartUpload_second_call[OF exAbort, of True] exAbort by simp

text \<open>
  Claim C1 as stated fails: the first abort of the upload succeeds and removes its
  directory, the second returns \<open>InvalidUploadID\<close>, not success.
\<close>

theorem AbortMultipartUpload_second_call_fails:
  "fst (AbortMultipartUpload exHelpers True exFS ''bucket'' ''object'' ''id1'') = None \<and>
   map_of (fsFiles (snd (AbortMultipartUpload exHelpers True exFS ''bucket'' ''object'' ''id1'')))
     exDir = None \<and>
   fst (AbortMultipartUpload exHelpers True
          (snd (AbortMultipartUpload exHelpers True exFS ''bucket'' ''object'' ''id1''))
          ''bucket'' ''object'' ''id1'') = Some (InvalidUploadID ''id1'')"
proof -
  have "map_of (fsRemoveAll exFiles exDir) exDir = None"
    by (simp add: map_of_fsRemoveAll)
  then show ?thesis
    using AbortMultipartUpload_after_removal[OF exAbort, of True] by (simp add: exAbort)
qed

end
